theory Spec2Isabelle
  imports Complex_Main "HOL-Library.Multiset" "HOL-Library.Sublist"
begin

section \<open>Common data\<close>

text \<open>
  A JavaScript string is a sequence of UTF-16 code units, each an integer from 0 to
  65535; \<open>lit\<close> embeds an ASCII literal.  A rejected promise or a thrown exception is the value \<open>Inl Thrown\<close>.
\<close>

type_synonym js_string = "int list"

definition lit :: "string \<Rightarrow> js_string" where
  "lit s = map of_char s"

datatype js_error = Thrown

section \<open>Strings\<close>

text \<open>
  The code units that \<open>String.prototype.trim\<close> strips and that \<open>\s\<close> matches in a
  regular expression: ECMAScript WhiteSpace and LineTerminator.
\<close>

definition is_ws :: "int \<Rightarrow> bool" where
  "is_ws c = (c \<in> set [9, 10, 11, 12, 13, 32, 160, 5760, 8232, 8233, 8239, 8287, 12288, 65279]
      \<or> (8192 \<le> c \<and> c \<le> 8202))"

definition trim :: "js_string \<Rightarrow> js_string" where
  "trim s = rev (dropWhile is_ws (rev (dropWhile is_ws s)))"

text \<open>\<^verbatim>\<open>s.replace(/\s+/g, ' ')\<close>: every maximal run of white space becomes one space.\<close>

function collapse_ws :: "js_string \<Rightarrow> js_string" where
  "collapse_ws [] = []"
| "collapse_ws (c # cs) =
     (if is_ws c then 32 # collapse_ws (dropWhile is_ws cs) else c # collapse_ws cs)"
  by pat_completeness auto
termination
  by (relation "measure length") (auto simp: length_dropWhile_le less_Suc_eq_le)

text \<open>\<^verbatim>\<open>s.split('\n')\<close> and \<^verbatim>\<open>parts.join(' ')\<close>.\<close>

fun split_on :: "int \<Rightarrow> js_string \<Rightarrow> js_string list" where
  "split_on sep [] = [[]]"
| "split_on sep (c # cs) =
     (if c = sep then [] # split_on sep cs
      else (case split_on sep cs of [] \<Rightarrow> [[c]] | p # ps \<Rightarrow> (c # p) # ps))"

fun join_sp :: "js_string list \<Rightarrow> js_string" where
  "join_sp [] = []"
| "join_sp [s] = s"
| "join_sp (s # t # ss) = s @ 32 # join_sp (t # ss)"

text \<open>
  Matching a pattern character under the \<open>i\<close> flag.  The patterns of this program hold
  lower-case ASCII letters, \<open>.\<close> and \<open>U+00E1\<close>; such a letter matches itself and its
  upper-case form (32 below it), any other character only itself.
\<close>

definition ci_match :: "int \<Rightarrow> int \<Rightarrow> bool" where
  "ci_match p c = (c = p \<or> (((97 \<le> p \<and> p \<le> 122) \<or> p = 225) \<and> c + 32 = p))"

definition ci_prefix :: "js_string \<Rightarrow> js_string \<Rightarrow> bool" where
  "ci_prefix pat s = (length pat \<le> length s \<and> list_all2 ci_match pat (take (length pat) s))"

fun ci_contains :: "js_string \<Rightarrow> js_string \<Rightarrow> bool" where
  "ci_contains pat [] = ci_prefix pat []"
| "ci_contains pat (c # cs) = (ci_prefix pat (c # cs) \<or> ci_contains pat cs)"

text \<open>
  \<^verbatim>\<open>/^(max\.|m[U+00E1]x\.|max|solo|only|capacidad|occupancy)/i.test(s)\<close> (the
  second alternative has the letter a with acute accent, code unit 225) and
  \<^verbatim>\<open>/(people|personas|guests?)/i.test(s)\<close>.
\<close>

definition capacity_line :: "js_string \<Rightarrow> bool" where
  "capacity_line s =
     list_ex (\<lambda>p. ci_prefix p s)
       [lit ''max.'', [109, 225, 120, 46], lit ''max'', lit ''solo'', lit ''only'',
        lit ''capacidad'', lit ''occupancy'']"

definition guests_line :: "js_string \<Rightarrow> bool" where
  "guests_line s = list_ex (\<lambda>p. ci_contains p s) [lit ''people'', lit ''personas'', lit ''guest'']"

text \<open>
  The cleaning of a room-type label in \<open>scrapeBookingPrices\<close>:
  \<^verbatim>\<open>raw.split('\n').map(s => s.trim()).filter(s => s && !re1.test(s) && !re2.test(s))
     .join(' ').replace(/\s+/g, ' ').trim()\<close>
\<close>

definition clean_label :: "js_string \<Rightarrow> js_string" where
  "clean_label raw =
     trim (collapse_ws (join_sp
       (filter (\<lambda>s. s \<noteq> [] \<and> \<not> capacity_line s \<and> \<not> guests_line s)
          (map trim (split_on 10 raw)))))"

text \<open>
  The price pattern \<^verbatim>\<open>/(MXN\s*\$?|\$|USD|EUR)\s*[\d.,]+/\<close>.  \<open>price_head\<close> matches the
  alternation at the start of the text and returns the matched prefix and the rest;
  \<open>price_at\<close> adds \<^verbatim>\<open>\s*[\d.,]+\<close>; \<open>match_price\<close> is \<open>String.prototype.match\<close>: the
  leftmost match, or \<open>None\<close> for \<open>null\<close>.  The alternatives start with different
  characters, and after \<open>MXN\<close> the greedy reading (white space, a dollar sign if there
  is one) is the only one after which \<^verbatim>\<open>\s*[\d.,]+\<close> can match, so no backtracking
  is lost.
\<close>

definition is_amount_char :: "int \<Rightarrow> bool" where
  "is_amount_char c = ((48 \<le> c \<and> c \<le> 57) \<or> c = 46 \<or> c = 44)"

definition price_head :: "js_string \<Rightarrow> (js_string \<times> js_string) option" where
  "price_head s =
     (if take 3 s = lit ''MXN'' then
        (let r = drop 3 s; ws = takeWhile is_ws r; r' = dropWhile is_ws r in
         if take 1 r' = lit ''$'' then Some (lit ''MXN'' @ ws @ lit ''$'', drop 1 r')
         else Some (lit ''MXN'' @ ws, r'))
      else if take 1 s = lit ''$'' then Some (lit ''$'', drop 1 s)
      else if take 3 s = lit ''USD'' then Some (lit ''USD'', drop 3 s)
      else if take 3 s = lit ''EUR'' then Some (lit ''EUR'', drop 3 s)
      else None)"

definition price_at :: "js_string \<Rightarrow> js_string option" where
  "price_at s =
     (case price_head s of
        None \<Rightarrow> None
      | Some (pre, r) \<Rightarrow>
          (let ws = takeWhile is_ws r; amount = takeWhile is_amount_char (dropWhile is_ws r) in
           if amount = [] then None else Some (pre @ ws @ amount)))"

fun match_price :: "js_string \<Rightarrow> js_string option" where
  "match_price [] = None"
| "match_price (c # cs) =
     (case price_at (c # cs) of Some m \<Rightarrow> Some m | None \<Rightarrow> match_price cs)"

section \<open>Date-range partition of the multi-day scheduler\<close>

text \<open>
  \<^verbatim>\<open>const dateRanges = [ [0, Math.min(30, days-1)], [31, Math.min(60, days-1)],
                       [61, Math.min(90, days-1)] ].filter(([a,b]) => a <= b)\<close>
\<close>

definition dateRanges :: "int \<Rightarrow> (int \<times> int) list" where
  "dateRanges days =
     filter (\<lambda>(a, b). a \<le> b)
       [(0, min 30 (days - 1)), (31, min 60 (days - 1)), (61, min 90 (days - 1))]"

text \<open>Consecutive ranges touch: each range starts one day after its predecessor ends.\<close>

fun contiguous :: "(int \<times> int) list \<Rightarrow> bool" where
  "contiguous [] = True"
| "contiguous [r] = True"
| "contiguous ((a, b) # (c, d) # rs) = (c = b + 1 \<and> contiguous ((c, d) # rs))"

definition covered :: "(int \<times> int) list \<Rightarrow> int set" where
  "covered rs = (\<Union>(a, b) \<in> set rs. {a..b})"

section \<open>Price pages and the price extraction strategies\<close>

datatype strategy = HprtTable | Generic

text \<open>An extracted price: \<^verbatim>\<open>{ room_type, price, source }\<close>; only \<open>scrapeBookingPrices\<close> tags the source.\<close>

record room =
  room_type :: js_string
  price :: js_string
  source :: "strategy option"

text \<open>
  What the page scripts read from the document.  A row of the \<open>hprt-table\<close>: the text
  of its \<open>td, th\<close> cells; for each of the seven name selectors of
  \<open>scrapeBookingPrices\<close> the text of the element it finds in the first cell, if any; the
  text of the element that the combined name selector of \<open>processRange\<close> finds in the
  first cell, if any; the text of the \<open>.prco-valign-middle-helper\<close> element, if any.
  A candidate of the generic scan: its text, and the label that \<open>getRoomTypeNear\<close>
  returns for it (the empty string when it finds none).
\<close>

record row =
  cell_texts :: "js_string list"
  selector_texts :: "js_string option list"
  name_el_text :: "js_string option"
  helper_text :: "js_string option"

record cand =
  cand_text :: js_string
  near_label :: js_string

record page =
  table :: "row list option"
  candidates :: "cand list"

text \<open>
  The price of a row: first in the helper element, then in the cells from the last to the
  first.  (\<open>scrapeBookingPrices\<close> skips an empty cell text before matching and the other
  two scripts do not; the pattern does not match the empty text, so the result is the
  same.)
\<close>

definition helper_price :: "row \<Rightarrow> js_string option" where
  "helper_price r =
     (case helper_text r of
        None \<Rightarrow> None
      | Some t \<Rightarrow> if t = [] then None else match_price (trim t))"

fun scan_cells :: "js_string list \<Rightarrow> js_string option" where
  "scan_cells [] = None"
| "scan_cells (t # ts) =
     (case match_price (trim t) of Some m \<Rightarrow> Some m | None \<Rightarrow> scan_cells ts)"

definition cells_price :: "row \<Rightarrow> js_string option" where
  "cells_price r = scan_cells (rev (cell_texts r))"

definition row_price :: "row \<Rightarrow> js_string option" where
  "row_price r = (case helper_price r of Some p \<Rightarrow> Some p | None \<Rightarrow> cells_price r)"

definition first_cell :: "row \<Rightarrow> js_string" where
  "first_cell r = (case cell_texts r of [] \<Rightarrow> [] | t # _ \<Rightarrow> trim t)"

text \<open>
  The label of a row, \<open>None\<close> when the row is skipped for its label.
  \<open>scrapeBookingPrices\<close> takes the first name selector whose trimmed text is longer than
  three characters, else the first cell, cleans it, and skips a label of at most three
  characters.  \<open>processRange\<close> takes the name element if it has text, else the first cell;
  the retry loop takes the first cell; both collapse white space and skip an empty label.
\<close>

definition main_label :: "row \<Rightarrow> js_string option" where
  "main_label r =
     (let roomTypeRaw =
        (case find (\<lambda>txt. txt \<noteq> [] \<and> length txt > 3)
                (map trim (List.map_filter id (selector_texts r))) of
           Some txt \<Rightarrow> txt
         | None \<Rightarrow> first_cell r);
        roomType = clean_label roomTypeRaw
      in if roomType = [] \<or> length roomType \<le> 3 then None else Some roomType)"

definition day_label :: "row \<Rightarrow> js_string option" where
  "day_label r =
     (let nameRaw =
        (case name_el_text r of
           Some t \<Rightarrow> if t \<noteq> [] then trim t else first_cell r
         | None \<Rightarrow> first_cell r);
        name = trim (collapse_ws nameRaw)
      in if name = [] then None else Some name)"

definition retry_label :: "row \<Rightarrow> js_string option" where
  "retry_label r =
     (let name = trim (collapse_ws (first_cell r))
      in if name = [] then None else Some name)"

text \<open>
  The row loop of the table strategy, shared by the three page scripts: rows with fewer
  than two cells, rows without a label, rows whose label was already taken and rows
  without a price are skipped; \<open>seen\<close> is the script's \<open>Set\<close> of labels taken.
\<close>

fun table_scan ::
  "(row \<Rightarrow> js_string option) \<Rightarrow> (row \<Rightarrow> js_string option) \<Rightarrow> strategy option
     \<Rightarrow> js_string set \<Rightarrow> row list \<Rightarrow> room list" where
  "table_scan label price_of src seen [] = []"
| "table_scan label price_of src seen (r # rs) =
     (if length (cell_texts r) < 2 then table_scan label price_of src seen rs
      else case label r of
        None \<Rightarrow> table_scan label price_of src seen rs
      | Some name \<Rightarrow>
          if name \<in> seen then table_scan label price_of src seen rs
          else (case price_of r of
            None \<Rightarrow> table_scan label price_of src seen rs
          | Some p \<Rightarrow>
              \<lparr>room_type = name, price = p, source = src\<rparr>
                # table_scan label price_of src (insert name seen) rs))"

text \<open>
  The generic scan of \<open>processRange\<close> and of the retry loop (same code): a candidate
  counts when its text holds a price and its label is non-empty and new.
\<close>

fun generic_scan :: "js_string set \<Rightarrow> cand list \<Rightarrow> room list" where
  "generic_scan seen [] = []"
| "generic_scan seen (el # els) =
     (case match_price (trim (cand_text el)) of
        None \<Rightarrow> generic_scan seen els
      | Some m \<Rightarrow>
          let name = near_label el in
          if name = [] \<or> name \<in> seen then generic_scan seen els
          else \<lparr>room_type = name, price = m, source = None\<rparr>
                 # generic_scan (insert name seen) els)"

text \<open>
  The generic scan of \<open>scrapeBookingPrices\<close>: a candidate is dropped only when the same
  label with the same price is already in \<open>results\<close>.
\<close>

fun generic_main :: "room list \<Rightarrow> cand list \<Rightarrow> room list" where
  "generic_main results [] = results"
| "generic_main results (el # els) =
     (case match_price (trim (cand_text el)) of
        None \<Rightarrow> generic_main results els
      | Some m \<Rightarrow>
          let roomType = near_label el in
          if roomType = [] then generic_main results els
          else if list_ex (\<lambda>r. room_type r = roomType \<and> price r = m) results
          then generic_main results els
          else generic_main
                 (results @ [\<lparr>room_type = roomType, price = m, source = Some Generic\<rparr>]) els)"

text \<open>The strategies as functions of the page.\<close>

definition hprt_main :: "page \<Rightarrow> room list" where
  "hprt_main pg =
     (case table pg of None \<Rightarrow> [] | Some rows \<Rightarrow> table_scan main_label row_price (Some HprtTable) {} rows)"

definition hprt_day :: "page \<Rightarrow> room list" where
  "hprt_day pg =
     (case table pg of None \<Rightarrow> [] | Some rows \<Rightarrow> table_scan day_label row_price None {} rows)"

definition hprt_retry :: "page \<Rightarrow> room list" where
  "hprt_retry pg =
     (case table pg of None \<Rightarrow> [] | Some rows \<Rightarrow> table_scan retry_label cells_price None {} rows)"

text \<open>
  The page script of \<open>processRange\<close> and the one of the retry loop: the generic scan runs
  only \<^verbatim>\<open>if (out.length === 0)\<close>, when \<open>seen\<close> is still empty.
\<close>

definition day_rooms :: "page \<Rightarrow> room list" where
  "day_rooms pg = (let out = hprt_day pg in if length out = 0 then generic_scan {} (candidates pg) else out)"

definition retry_rooms :: "page \<Rightarrow> room list" where
  "retry_rooms pg = (let out = hprt_retry pg in if length out = 0 then generic_scan {} (candidates pg) else out)"

text \<open>
  The final pass over the extracted rooms, the same in all three places:
  \<^verbatim>\<open>for (const r of rooms) { const k = (r.room_type||'').trim();
       if (!k || used.has(k)) continue; used.add(k); unique.push(r) }\<close>
\<close>

fun first_by_type :: "js_string set \<Rightarrow> room list \<Rightarrow> room list" where
  "first_by_type used [] = []"
| "first_by_type used (r # rs) =
     (let k = trim (room_type r) in
      if k = [] \<or> k \<in> used then first_by_type used rs
      else r # first_by_type (insert k used) rs)"

text \<open>
  The final pass as the specification words it, to compare with \<open>first_by_type\<close>: of the
  records with a label (non-empty after trimming), exactly those that no earlier record
  of the list shares the trimmed label with are retained, in the order of the list.
\<close>

definition keep_earliest :: "room list \<Rightarrow> room list" where
  "keep_earliest rs =
     map (\<lambda>i. rs ! i)
       (filter (\<lambda>i. trim (room_type (rs ! i)) \<noteq> []
                  \<and> (\<forall>j < i. trim (room_type (rs ! j)) \<noteq> trim (room_type (rs ! i))))
          [0..<length rs])"

text \<open>One entry of a scraper's output: \<^verbatim>\<open>{ date, rooms }\<close>, the date as a day number.\<close>

record day_entry =
  date :: int
  rooms :: "room list"

section \<open>The multi-day scheduler\<close>

text \<open>
  What the browser does is the environment of \<open>scrapeMultipleDates\<close>.  The set-up
  (launch, first page, search, first result) throws, or finds no result link
  (\<^verbatim>\<open>if (!href) { await browser.close(); return [] }\<close>), or ends on the hotel page.
  \<open>block_page a\<close> tells whether \<open>browser.newPage\<close> succeeds for the block starting at
  offset \<open>a\<close>.  Visiting the day at an offset throws in \<open>goto\<close>, throws in
  \<open>evaluate\<close>, or loads a page.  Closing a page or the browser is taken to succeed.
\<close>

datatype setup_outcome = SetupThrows | NoHref | HotelOpen

datatype day_visit = NavThrows | EvalThrows | Loaded page

record md_env =
  md_setup :: setup_outcome
  md_today :: int
  block_page :: "int \<Rightarrow> bool"
  visit :: "int \<Rightarrow> day_visit"

text \<open>
  The body of the \<open>for\<close> loop of \<open>processRange\<close> for one offset: the entry it pushes
  onto \<open>results\<close>, in the \<open>try\<close> block or in the \<open>catch\<close> block.
\<close>

definition processDay :: "md_env \<Rightarrow> int \<Rightarrow> day_entry" where
  "processDay env offset =
     (let ci = md_today env + offset in
      case visit env offset of
        NavThrows \<Rightarrow> \<lparr>date = ci, rooms = []\<rparr>
      | EvalThrows \<Rightarrow> \<lparr>date = ci, rooms = []\<rparr>
      | Loaded pg \<Rightarrow> \<lparr>date = ci, rooms = first_by_type {} (day_rooms pg)\<rparr>)"

text \<open>
  One call of \<open>processRange\<close> is a unit of work with a range \<open>(start, end)\<close> and a
  state: waiting for its page (\<open>Opening\<close>), holding its page with the loop variable at
  \<open>offset\<close> (\<open>Visiting offset\<close>), done after \<open>p.close()\<close> (\<open>Closed\<close>), or rejected
  because \<open>newPage\<close> threw.  The units share the array \<open>results\<close>.
\<close>

datatype unit_state = Opening | Visiting int | Closed | Rejected

type_synonym work_unit = "int \<times> int \<times> unit_state"

record sched_state =
  units :: "work_unit list"
  results :: "day_entry list"

fun live :: "unit_state \<Rightarrow> bool" where
  "live Opening = True"
| "live (Visiting offset) = True"
| "live Closed = False"
| "live Rejected = False"

fun holds_page :: "unit_state \<Rightarrow> bool" where
  "holds_page (Visiting offset) = True"
| "holds_page st = False"

text \<open>
  One step of unit \<open>i\<close>, from one \<open>await\<close> to the next: its page opens; or it visits
  the day at its offset, pushes the entry onto the shared \<open>results\<close> and increments the
  offset; or the loop is over and it closes its page.
\<close>

definition step_unit :: "md_env \<Rightarrow> nat \<Rightarrow> sched_state \<Rightarrow> sched_state" where
  "step_unit env i s =
     (if i < length (units s) then
        (case units s ! i of
           (a, b, Opening) \<Rightarrow>
             s\<lparr>units := (units s)[i := (a, b, if block_page env a then Visiting a else Rejected)]\<rparr>
         | (a, b, Visiting offset) \<Rightarrow>
             if offset \<le> b
             then s\<lparr>units := (units s)[i := (a, b, Visiting (offset + 1))],
                    results := results s @ [processDay env offset]\<rparr>
             else s\<lparr>units := (units s)[i := (a, b, Closed)]\<rparr>
         | (a, b, Closed) \<Rightarrow> s
         | (a, b, Rejected) \<Rightarrow> s)
      else s)"

definition runnable :: "sched_state \<Rightarrow> nat list" where
  "runnable s = filter (\<lambda>i. live (snd (snd (units s ! i)))) [0..<length (units s)]"

text \<open>
  Which unit resumes next is not decided by the program.  A schedule is a list of
  choices: each step takes the next choice \<open>c\<close> and resumes the runnable unit at
  position \<open>c mod n\<close> of the \<open>n\<close> runnable ones; when the list is used up the first
  runnable unit resumes.  Every interleaving of the units is the run of some schedule.
\<close>

definition pick :: "nat list \<Rightarrow> nat list \<Rightarrow> nat" where
  "pick sched rs = rs ! ((case sched of [] \<Rightarrow> 0 | c # cs \<Rightarrow> c) mod length rs)"

text \<open>The steps a unit still has to take.\<close>

fun unit_work :: "work_unit \<Rightarrow> nat" where
  "unit_work (a, b, Opening) = nat (b + 1 - a) + 2"
| "unit_work (a, b, Visiting offset) = nat (b + 1 - offset) + 1"
| "unit_work (a, b, Closed) = 0"
| "unit_work (a, b, Rejected) = 0"

definition work :: "sched_state \<Rightarrow> nat" where
  "work s = sum_list (map unit_work (units s))"

lemma sum_list_map_update:
  fixes f :: "'a \<Rightarrow> 'b::comm_monoid_add"
  shows "i < length xs \<Longrightarrow> sum_list (map f (xs[i := y])) + f (xs ! i) = sum_list (map f xs) + f y"
proof (induction xs arbitrary: i)
  case Nil
  then show ?case by simp
next
  case (Cons x xs)
  show ?case
  proof (cases i)
    case 0
    then show ?thesis by (simp add: ac_simps)
  next
    case (Suc j)
    with Cons.prems have "j < length xs" by simp
    from Cons.IH [OF this] show ?thesis using Suc by (simp add: ac_simps)
  qed
qed

lemma runnable_iff: "i \<in> set (runnable s) \<longleftrightarrow> i < length (units s) \<and> live (snd (snd (units s ! i)))"
  by (auto simp: runnable_def)

lemma pick_runnable: "rs \<noteq> [] \<Longrightarrow> pick sched rs \<in> set rs"
  by (simp add: pick_def)

lemma step_unit_work:
  assumes "i \<in> set (runnable s)"
  shows "work (step_unit env i s) < work s"
proof -
  from assms have i: "i < length (units s)" and l: "live (snd (snd (units s ! i)))"
    by (simp_all add: runnable_iff)
  obtain a b st where u: "units s ! i = (a, b, st)" by (cases "units s ! i")
  define u' where "u' = units (step_unit env i s) ! i"
  have upd: "units (step_unit env i s) = (units s)[i := u']"
    using i u by (cases st) (auto simp: step_unit_def u'_def list_update_same_conv [THEN iffD2])
  have less: "unit_work u' < unit_work (units s ! i)"
    using i u l by (cases st) (auto simp: step_unit_def u'_def)
  from sum_list_map_update [OF i, of unit_work u']
  show ?thesis using less by (simp add: work_def upd)
qed

text \<open>
  \<^verbatim>\<open>await Promise.all(dateRanges.map(([s,e]) => processRange(s,e)))\<close>: the states the
  run goes through under a schedule, until no unit can take a step.
\<close>

function run_trace :: "md_env \<Rightarrow> nat list \<Rightarrow> sched_state \<Rightarrow> sched_state list" where
  "run_trace env sched s =
     (if runnable s = [] then [s]
      else s # run_trace env (tl sched) (step_unit env (pick sched (runnable s)) s))"
  by pat_completeness auto
termination
  by (relation "measure (\<lambda>(env, sched, s). work s)")
     (auto intro!: step_unit_work pick_runnable)

declare run_trace.simps [simp del]

definition CONCURRENT_TASKS :: "int \<Rightarrow> int" where
  "CONCURRENT_TASKS concurrency = min concurrency 5"

definition start_units :: "(int \<times> int) list \<Rightarrow> sched_state" where
  "start_units ranges = \<lparr>units = map (\<lambda>(a, b). (a, b, Opening)) ranges, results = []\<rparr>"

text \<open>
  \<open>scrapeMultipleDates\<close> after the set-up: the ranges, the constant
  \<open>CONCURRENT_TASKS\<close> (computed, and read nowhere in the source either) and the states
  that the run of all ranges at once goes through.
\<close>

definition scrapeMultipleDates_states :: "md_env \<Rightarrow> nat list \<Rightarrow> int \<Rightarrow> int \<Rightarrow> sched_state list" where
  "scrapeMultipleDates_states env sched days concurrency =
     (let ranges = dateRanges days;
          tasks = CONCURRENT_TASKS concurrency
      in run_trace env sched (start_units ranges))"

text \<open>
  \<open>scrapeMultipleDates\<close>: the promise rejects when the set-up throws or a unit was
  rejected; it resolves to \<open>[]\<close> without a result link, else to \<open>results\<close> once no
  unit can take a step.
\<close>

definition scrapeMultipleDates :: "md_env \<Rightarrow> nat list \<Rightarrow> int \<Rightarrow> int \<Rightarrow> js_error + day_entry list" where
  "scrapeMultipleDates env sched days concurrency =
     (case md_setup env of
        SetupThrows \<Rightarrow> Inl Thrown
      | NoHref \<Rightarrow> Inr []
      | HotelOpen \<Rightarrow>
          (let final = last (scrapeMultipleDates_states env sched days concurrency)
           in if list_ex (\<lambda>(a, b, st). st = Rejected) (units final) then Inl Thrown
              else Inr (results final)))"

text \<open>The number of units that hold a page in a state, and the largest such number in a run.\<close>

definition active :: "sched_state \<Rightarrow> nat" where
  "active s = length (filter (\<lambda>(a, b, st). holds_page st) (units s))"

definition max_active :: "sched_state list \<Rightarrow> nat" where
  "max_active tr = fold max (map active tr) 0"

section \<open>Bookkeeping for the scheduler proofs\<close>

text \<open>
  The offsets a unit has still to visit, the offsets of the entries of an output, and the
  offset a unit visits next.
\<close>

fun pending :: "work_unit \<Rightarrow> int multiset" where
  "pending (a, b, Opening) = mset [a..b]"
| "pending (a, b, Visiting offset) = mset [offset..b]"
| "pending (a, b, Closed) = {#}"
| "pending (a, b, Rejected) = mset [a..b]"

definition offsets_done :: "md_env \<Rightarrow> sched_state \<Rightarrow> int multiset" where
  "offsets_done env s = mset (map (\<lambda>e. date e - md_today env) (results s))"

definition day_offsets :: "md_env \<Rightarrow> day_entry list \<Rightarrow> int list" where
  "day_offsets env out = map (\<lambda>e. date e - md_today env) out"

fun cursor :: "work_unit \<Rightarrow> int" where
  "cursor (a, b, Opening) = a"
| "cursor (a, b, Visiting offset) = offset"
| "cursor (a, b, Closed) = b + 1"
| "cursor (a, b, Rejected) = a"

definition in_range :: "work_unit \<Rightarrow> int \<Rightarrow> bool" where
  "in_range u k = (fst u \<le> k \<and> k \<le> fst (snd u))"

text \<open>
  A unit is in order when its cursor lies in its range (or just behind it) and the
  offsets of its range that occur in the output are those before the cursor, ascending.
\<close>

definition unit_in_order :: "int list \<Rightarrow> work_unit \<Rightarrow> bool" where
  "unit_in_order done u =
     (fst u \<le> cursor u \<and> cursor u \<le> fst (snd u) + 1
      \<and> filter (in_range u) done = [fst u..cursor u - 1])"

definition ranges_disjoint :: "work_unit list \<Rightarrow> bool" where
  "ranges_disjoint us =
     (\<forall>i < length us. \<forall>j < length us. i \<noteq> j \<longrightarrow> (\<forall>k. \<not> (in_range (us ! i) k \<and> in_range (us ! j) k)))"

definition in_order :: "md_env \<Rightarrow> sched_state \<Rightarrow> bool" where
  "in_order env s =
     (ranges_disjoint (units s)
      \<and> (\<forall>i < length (units s). unit_in_order (day_offsets env (results s)) (units s ! i)))"

text \<open>The rooms extracted for the day at an offset, before the final pass.\<close>

definition day_candidates :: "md_env \<Rightarrow> int \<Rightarrow> room list" where
  "day_candidates env k =
     (case visit env k of NavThrows \<Rightarrow> [] | EvalThrows \<Rightarrow> [] | Loaded pg \<Rightarrow> day_rooms pg)"

section \<open>The single-day price scraper\<close>

text \<open>
  The environment of \<open>scrapeBookingPrices\<close>, one field for each point where the
  source's control flow depends on the browser:
  \<^item> \<open>launch\<close>: \<open>chromium.launch\<close> and \<open>browser.newPage\<close> succeed (no \<open>try\<close> around them);
  \<^item> \<open>goto_networkidle\<close>, \<open>goto_domcontent\<close>: the first and the second attempt to load the
    search results succeed;
  \<^item> \<open>results_selector\<close>: the wait for a result selector succeeds; \<open>load_state\<close>: the
    \<open>waitForLoadState\<close> in its \<open>catch\<close> block succeeds (no \<open>try\<close> around it);
  \<^item> \<open>screenshot\<close>: the screenshot of the search results succeeds (no \<open>try\<close> around it);
  \<^item> \<open>selection\<close>: choosing and opening the best result throws, finds no link, or opens
    the hotel page;
  \<^item> \<open>table_eval\<close>: the first page script succeeds (no \<open>try\<close> around it);
    \<open>generic_eval\<close>: the second one succeeds (inside \<open>try\<close>); \<open>hotel_page\<close>: what they read;
  \<^item> \<open>retry\<close>: what the visit of the date \<open>add\<close> days ahead gives in the retry loop.
  The steps between opening the hotel page and the first page script (dates in the URL,
  availability button, cookie banner, second screenshot, selector race) are each inside
  \<^verbatim>\<open>try { ... } catch {}\<close> and change no variable the rest reads.  \<open>browser.close()\<close> is
  taken to succeed.
\<close>

datatype selection_outcome = SelectionThrows | NoCandidate | HotelPage

record bp_env =
  bp_today :: int
  launch :: bool
  goto_networkidle :: bool
  goto_domcontent :: bool
  results_selector :: bool
  load_state :: bool
  screenshot :: bool
  selection :: selection_outcome
  table_eval :: bool
  generic_eval :: bool
  hotel_page :: page
  retry :: "nat \<Rightarrow> day_visit"

text \<open>
  \<^verbatim>\<open>let roomData = <table script>; if (roomData.length === 0) { try { roomData = <generic
  script> } catch {} }\<close>
\<close>

definition main_rooms :: "bool \<Rightarrow> page \<Rightarrow> room list" where
  "main_rooms generic_ok pg =
     (let roomData = hprt_main pg in
      if length roomData = 0
      then (if generic_ok then generic_main [] (candidates pg) else roomData)
      else roomData)"

text \<open>
  The retry loop \<^verbatim>\<open>for (let add = 1; add <= 5; add++) { try { ... } catch {} }\<close>.  The
  result pairs the check-in dates attempted so far with the value returned.
\<close>

function retry_loop :: "bp_env \<Rightarrow> nat \<Rightarrow> int list \<Rightarrow> int list \<times> (js_error + day_entry list)" where
  "retry_loop env add attempted =
     (if add \<le> 5 then
        (let ci = bp_today env + int add; attempted' = attempted @ [ci] in
         case retry env add of
           NavThrows \<Rightarrow> retry_loop env (add + 1) attempted'
         | EvalThrows \<Rightarrow> retry_loop env (add + 1) attempted'
         | Loaded pg \<Rightarrow>
             (let unique = first_by_type {} (retry_rooms pg) in
              if length unique > 0 then (attempted', Inr [\<lparr>date = ci, rooms = unique\<rparr>])
              else retry_loop env (add + 1) attempted'))
      else (attempted, Inr []))"
  by pat_completeness auto
termination
  by (relation "measure (\<lambda>(env, add, attempted). 6 - add)") auto

declare retry_loop.simps [simp del]

definition scrapeBookingPrices :: "bp_env \<Rightarrow> int list \<times> (js_error + day_entry list)" where
  "scrapeBookingPrices env =
     (if \<not> launch env then ([], Inl Thrown)
      else let checkin = bp_today env in
        if \<not> goto_networkidle env \<and> \<not> goto_domcontent env then ([checkin], Inr [])
        else if \<not> results_selector env \<and> \<not> load_state env then ([checkin], Inl Thrown)
        else if \<not> screenshot env then ([checkin], Inl Thrown)
        else (case selection env of
          SelectionThrows \<Rightarrow> ([checkin], Inr [])
        | NoCandidate \<Rightarrow> ([checkin], Inr [])
        | HotelPage \<Rightarrow>
            if \<not> table_eval env then ([checkin], Inl Thrown)
            else let firstPriceByType =
                       first_by_type {} (main_rooms (generic_eval env) (hotel_page env))
              in if length firstPriceByType > 0
                 then ([checkin], Inr [\<lparr>date = checkin, rooms = firstPriceByType\<rparr>])
                 else retry_loop env 1 [checkin]))"

text \<open>
  What the retry at \<open>add\<close> yields (nothing when it throws), the check-in dates of the
  retries \<open>i, ..., j - 1\<close>, and the environments in which the run reaches the page scripts
  of the hotel page.
\<close>

definition retry_unique :: "bp_env \<Rightarrow> nat \<Rightarrow> room list" where
  "retry_unique env add =
     (case retry env add of
        NavThrows \<Rightarrow> []
      | EvalThrows \<Rightarrow> []
      | Loaded pg \<Rightarrow> first_by_type {} (retry_rooms pg))"

definition retry_dates :: "bp_env \<Rightarrow> nat \<Rightarrow> nat \<Rightarrow> int list" where
  "retry_dates env i j = map (\<lambda>k. bp_today env + int k) [i..<j]"

definition reaches_extraction :: "bp_env \<Rightarrow> bool" where
  "reaches_extraction env =
     (launch env \<and> (goto_networkidle env \<or> goto_domcontent env)
      \<and> (results_selector env \<or> load_state env) \<and> screenshot env
      \<and> selection env = HotelPage \<and> table_eval env)"

text \<open>The natural keys of an output: the room-type labels, each within its date.\<close>

definition natural_keys :: "day_entry list \<Rightarrow> (int \<times> js_string) list" where
  "natural_keys out = concat (map (\<lambda>e. map (\<lambda>r. (date e, room_type r)) (rooms e)) out)"

section \<open>The event scraper\<close>

text \<open>
  A JavaScript number is \<open>NaN\<close>, an infinity or a real value (the sign of zero plays no
  role in this program).  Comparisons and \<open>Math.round\<close> are exact; a comparison with
  \<open>NaN\<close> is false.
\<close>

datatype js_num = NaN | NegInf | PosInf | Num real

fun js_le :: "js_num \<Rightarrow> js_num \<Rightarrow> bool" where
  "js_le NaN y = False"
| "js_le x NaN = False"
| "js_le NegInf y = True"
| "js_le x PosInf = True"
| "js_le (Num x) (Num y) = (x \<le> y)"
| "js_le x y = False"

fun js_gt :: "js_num \<Rightarrow> js_num \<Rightarrow> bool" where
  "js_gt NaN y = False"
| "js_gt x NaN = False"
| "js_gt x y = (\<not> js_le x y)"

text \<open>\<open>Math.round(x)\<close>: the nearest integer, half-way cases go up.\<close>

fun js_round :: "js_num \<Rightarrow> js_num" where
  "js_round (Num x) = Num (of_int \<lfloor>x + 1 / 2\<rfloor>)"
| "js_round x = x"

text \<open>
  The arithmetic of the JavaScript engine is not part of the program: \<open>+\<close>, \<open>-\<close>, \<open>*\<close>,
  \<open>/\<close> round to IEEE doubles, and \<open>Math.sin\<close>, \<open>Math.cos\<close>, \<open>Math.sqrt\<close>, \<open>Math.atan2\<close>
  and \<open>Math.PI\<close> are the engine's.  The model takes it as a parameter, so what is proved
  for every \<open>machine\<close> holds for the engine's arithmetic, in which the square root of a
  difference rounded below zero is \<open>NaN\<close>.
\<close>

record machine =
  m_pi :: js_num
  m_add :: "js_num \<Rightarrow> js_num \<Rightarrow> js_num"
  m_sub :: "js_num \<Rightarrow> js_num \<Rightarrow> js_num"
  m_mul :: "js_num \<Rightarrow> js_num \<Rightarrow> js_num"
  m_div :: "js_num \<Rightarrow> js_num \<Rightarrow> js_num"
  m_sin :: "js_num \<Rightarrow> js_num"
  m_cos :: "js_num \<Rightarrow> js_num"
  m_sqrt :: "js_num \<Rightarrow> js_num"
  m_atan2 :: "js_num \<Rightarrow> js_num \<Rightarrow> js_num"

record coord =
  lat :: real
  lon :: real

text \<open>
  \<open>toKm\<close>, operation by operation as the source writes it (\<open>*\<close> and \<open>/\<close> associate to
  the left).
\<close>

definition toKm :: "machine \<Rightarrow> coord \<Rightarrow> coord \<Rightarrow> js_num" where
  "toKm m a b =
     (let R = Num 6371;
          dLat = m_div m (m_mul m (m_sub m (Num (lat b)) (Num (lat a))) (m_pi m)) (Num 180);
          dLon = m_div m (m_mul m (m_sub m (Num (lon b)) (Num (lon a))) (m_pi m)) (Num 180);
          sindLat = m_sin m (m_div m dLat (Num 2));
          sindLon = m_sin m (m_div m dLon (Num 2));
          va = m_add m (m_mul m sindLat sindLat)
                 (m_mul m
                    (m_mul m
                       (m_mul m (m_cos m (m_div m (m_mul m (Num (lat a)) (m_pi m)) (Num 180)))
                                (m_cos m (m_div m (m_mul m (Num (lat b)) (m_pi m)) (Num 180))))
                       sindLon)
                    sindLon);
          c = m_mul m (Num 2) (m_atan2 m (m_sqrt m va) (m_sqrt m (m_sub m (Num 1) va)))
      in m_mul m R c)"

text \<open>\<^verbatim>\<open>Math.round(distance * 100) / 100\<close>\<close>

definition round2 :: "machine \<Rightarrow> js_num \<Rightarrow> js_num" where
  "round2 m distance = m_div m (js_round (m_mul m distance (Num 100))) (Num 100)"

text \<open>
  Arithmetic without rounding, for reference: the operations on real numbers, with
  \<open>Math.atan2\<close> by its case distinction.  The square root of a negative number and every
  operation on \<open>NaN\<close> give \<open>NaN\<close>, as in IEEE arithmetic.  A division by zero and an
  operation on an infinity are taken to give \<open>NaN\<close> as well; no computation below gets
  there.
\<close>

definition js_atan2 :: "real \<Rightarrow> real \<Rightarrow> real" where
  "js_atan2 y x =
     (if 0 < x then arctan (y / x)
      else if x < 0 then (if 0 \<le> y then arctan (y / x) + pi else arctan (y / x) - pi)
      else if 0 < y then pi / 2
      else if y < 0 then - (pi / 2)
      else 0)"

fun num1 :: "(real \<Rightarrow> real) \<Rightarrow> js_num \<Rightarrow> js_num" where
  "num1 f (Num x) = Num (f x)"
| "num1 f x = NaN"

fun num2 :: "(real \<Rightarrow> real \<Rightarrow> real) \<Rightarrow> js_num \<Rightarrow> js_num \<Rightarrow> js_num" where
  "num2 f (Num x) (Num y) = Num (f x y)"
| "num2 f x y = NaN"

fun exact_div :: "js_num \<Rightarrow> js_num \<Rightarrow> js_num" where
  "exact_div (Num x) (Num y) = (if y = 0 then NaN else Num (x / y))"
| "exact_div x y = NaN"

fun exact_sqrt :: "js_num \<Rightarrow> js_num" where
  "exact_sqrt (Num x) = (if x < 0 then NaN else Num (sqrt x))"
| "exact_sqrt x = NaN"

definition exact_arithmetic :: machine where
  "exact_arithmetic =
     \<lparr>m_pi = Num pi, m_add = num2 (+), m_sub = num2 (-), m_mul = num2 (*), m_div = exact_div,
      m_sin = num1 sin, m_cos = num1 cos, m_sqrt = exact_sqrt, m_atan2 = num2 js_atan2\<rparr>"

text \<open>An output record; \<open>latitude\<close>, \<open>longitude\<close> and \<open>distance_km\<close> are absent without geo.\<close>

record event =
  nombre :: js_string
  fecha :: js_string
  lugar :: js_string
  enlace :: js_string
  latitude :: "real option"
  longitude :: "real option"
  distance_km :: "js_num option"

text \<open>
  An \<open>Event\<close> object of the JSON-LD metadata, as the script reads it: \<open>name\<close>,
  \<open>startDate\<close>, \<open>location.name\<close> and \<open>url\<close> (the empty string when missing), and
  \<open>location.geo.latitude\<close>, \<open>location.geo.longitude\<close> (\<open>None\<close> for \<open>null\<close> or missing).
\<close>

record ld_event =
  ld_name :: js_string
  ld_startDate :: js_string
  ld_venue :: js_string
  ld_url :: js_string
  ld_latitude :: "real option"
  ld_longitude :: "real option"

text \<open>
  An event anchor, as the script reads it from the document: the name, the date text
  before it is cut to ten characters, the venue, the \<open>href\<close> attribute, and the geo
  coordinates of the embedded microformat.
\<close>

record anchor =
  an_nombre :: js_string
  an_fecha :: js_string
  an_venue :: js_string
  an_href :: "js_string option"
  an_latitude :: "real option"
  an_longitude :: "real option"

text \<open>
  The JSON-LD block runs inside \<open>try\<close>: it throws (and its events are dropped), or it
  walks over all \<open>Event\<close> objects.  The body of the anchor loop runs inside \<open>try\<close> for
  every anchor.
\<close>

datatype ld_outcome = LdThrows | LdEvents "ld_event list"

datatype anchor_outcome = AnchorThrows | Anchor anchor

record document =
  jsonld :: ld_outcome
  anchors :: "anchor_outcome list"

definition BASE_URL :: js_string where
  "BASE_URL = lit ''https://www.songkick.com''"

definition absolute_url :: "js_string \<Rightarrow> js_string" where
  "absolute_url url = (if take 4 url = lit ''http'' then url else BASE_URL @ url)"

definition ld_to_event :: "machine \<Rightarrow> real \<Rightarrow> real \<Rightarrow> real \<Rightarrow> ld_event \<Rightarrow> event option" where
  "ld_to_event m la lo radiusKm ev =
     (let name = ld_name ev; date = take 10 (ld_startDate ev); venueName = ld_venue ev;
          url = ld_url ev
      in case (ld_latitude ev, ld_longitude ev) of
           (Some evLat, Some evLon) \<Rightarrow>
             (let distance = toKm m \<lparr>lat = la, lon = lo\<rparr> \<lparr>lat = evLat, lon = evLon\<rparr> in
              if js_le distance (Num radiusKm)
              then Some \<lparr>nombre = name, fecha = date, lugar = venueName, enlace = absolute_url url,
                         latitude = Some evLat, longitude = Some evLon,
                         distance_km = Some (round2 m distance)\<rparr>
              else None)
         | _ \<Rightarrow>
             Some \<lparr>nombre = name, fecha = date, lugar = venueName, enlace = absolute_url url,
                   latitude = None, longitude = None, distance_km = None\<rparr>)"

definition anchor_to_event :: "machine \<Rightarrow> real \<Rightarrow> real \<Rightarrow> real \<Rightarrow> anchor_outcome \<Rightarrow> event option" where
  "anchor_to_event m la lo radiusKm ao =
     (case ao of
        AnchorThrows \<Rightarrow> None
      | Anchor a \<Rightarrow>
          (let fecha = (if length (an_fecha a) > 10 then take 10 (an_fecha a) else an_fecha a);
               enlace = (case an_href a of
                           None \<Rightarrow> []
                         | Some href \<Rightarrow> if href = [] then [] else absolute_url href)
           in case (an_latitude a, an_longitude a) of
                (Some evLat, Some evLon) \<Rightarrow>
                  (let distance = toKm m \<lparr>lat = la, lon = lo\<rparr> \<lparr>lat = evLat, lon = evLon\<rparr> in
                   if js_gt distance (Num radiusKm) then None
                   else Some \<lparr>nombre = an_nombre a, fecha = fecha, lugar = an_venue a,
                              enlace = enlace, latitude = Some evLat, longitude = Some evLon,
                              distance_km = Some (round2 m distance)\<rparr>)
              | _ \<Rightarrow>
                  Some \<lparr>nombre = an_nombre a, fecha = fecha, lugar = an_venue a, enlace = enlace,
                        latitude = None, longitude = None, distance_km = None\<rparr>))"

definition jsonld_events :: "machine \<Rightarrow> real \<Rightarrow> real \<Rightarrow> real \<Rightarrow> document \<Rightarrow> event list" where
  "jsonld_events m la lo radiusKm doc =
     (case jsonld doc of
        LdThrows \<Rightarrow> []
      | LdEvents evs \<Rightarrow> List.map_filter (ld_to_event m la lo radiusKm) evs)"

definition anchor_events :: "machine \<Rightarrow> real \<Rightarrow> real \<Rightarrow> real \<Rightarrow> document \<Rightarrow> event list" where
  "anchor_events m la lo radiusKm doc =
     List.map_filter (anchor_to_event m la lo radiusKm) (anchors doc)"

text \<open>
  The page script: \<^verbatim>\<open>try { ...; if (ldEvents.length) return ldEvents } catch {}\<close>, then the
  anchor loop.
\<close>

definition extract_events :: "machine \<Rightarrow> real \<Rightarrow> real \<Rightarrow> real \<Rightarrow> document \<Rightarrow> event list" where
  "extract_events m la lo radiusKm doc =
     (let ldEvents = jsonld_events m la lo radiusKm doc in
      if length ldEvents \<noteq> 0 then ldEvents else anchor_events m la lo radiusKm doc)"












section \<open>Ticketmaster pagination\<close>

record tm_event =
  ev_name :: js_string
  ev_url :: js_string
  ev_date :: js_string
  ev_time :: js_string
  ev_venue :: js_string
  ev_genre :: js_string
  ev_price_range :: js_string

text \<open>
  The argument object of \<open>getEvents\<close> (fields \<open>city\<close>, \<open>daysAhead\<close>, \<open>limit\<close>,
  \<open>latitude\<close>, \<open>longitude\<close>, \<open>radius\<close>, \<open>countryCode\<close>; prefixed here because the
  event records of the Songkick scraper have fields of the same names).
\<close>

record tm_query =
  q_city :: "js_string option"
  q_daysAhead :: int
  q_limit :: nat
  q_latitude :: "real option"
  q_longitude :: "real option"
  q_radius :: real
  q_countryCode :: "js_string option"

text \<open>
  What one HTTP exchange with the provider gives: \<open>fetch\<close> or \<open>res.json()\<close> throws,
  or the body has no \<open>_embedded.events\<close>, or it has a list of events (already mapped
  field by field, one output event per input event).
\<close>

datatype fetch_outcome = FetchThrows | FetchData "tm_event list option"

text \<open>The provider answers the \<open>n\<close>-th request of a run as it likes.\<close>

type_synonym provider = "nat \<Rightarrow> tm_query \<Rightarrow> fetch_outcome"

definition getEvents :: "provider \<Rightarrow> nat \<Rightarrow> tm_query \<Rightarrow> js_error + tm_event list" where
  "getEvents prov n q =
     (case prov n q of
        FetchThrows \<Rightarrow> Inl Thrown
      | FetchData None \<Rightarrow> Inr []
      | FetchData (Some evs) \<Rightarrow> Inr evs)"

definition pageSize :: nat where
  "pageSize = 200"

text \<open>
  The \<open>while (true)\<close> loop of \<open>getAllEvents\<close>.  The state is the page counter and
  \<open>allEvents\<close>; \<open>sent\<close> logs the argument object of every \<open>getEvents\<close> call, so
  its length is the number of iterations started.
\<close>

function getAllEvents_loop ::
  "provider \<Rightarrow> tm_query \<Rightarrow> nat \<Rightarrow> tm_event list \<Rightarrow> tm_query list
     \<Rightarrow> tm_query list \<times> (js_error + tm_event list)" where
  "getAllEvents_loop prov q page allEvents sent =
     (let sent' = sent @ [q] in
      case getEvents prov (length sent) q of
        Inl e \<Rightarrow> (sent', Inl e)
      | Inr events \<Rightarrow>
          if length events = 0 then (sent', Inr allEvents)
          else let allEvents' = allEvents @ events in
            if length events < pageSize then (sent', Inr allEvents')
            else let page' = page + 1 in
              if page' > 50 then (sent', Inr allEvents')
              else getAllEvents_loop prov q page' allEvents' sent')"
  by pat_completeness auto
termination
  by (relation "measure (\<lambda>(prov, q, page, allEvents, sent). 51 - page)") auto

definition getAllEvents :: "provider \<Rightarrow> tm_query \<Rightarrow> tm_query list \<times> (js_error + tm_event list)" where
  "getAllEvents prov q = getAllEvents_loop prov (q\<lparr>q_limit := pageSize\<rparr>) 0 [] []"

declare getAllEvents_loop.simps [simp del]

section \<open>Example inputs\<close>

text \<open>
  A hotel page whose table has two rows for the same room type and one for another, and
  a multi-day environment in which the day at offset 1 fails to load, the day at offset
  0 shows that page and every other day shows an empty page.
\<close>

definition example_page :: page where
  "example_page =
     \<lparr>table = Some
        [\<lparr>cell_texts = [lit ''Suite'', lit ''MXN 1,200''], selector_texts = [],
          name_el_text = None, helper_text = None\<rparr>,
         \<lparr>cell_texts = [lit '' Suite '', lit ''MXN 1,500''], selector_texts = [],
          name_el_text = None, helper_text = None\<rparr>,
         \<lparr>cell_texts = [lit ''Twin Room'', lit ''from $ 90.50 today''], selector_texts = [],
          name_el_text = None, helper_text = None\<rparr>],
      candidates = []\<rparr>"

definition empty_page :: page where
  "empty_page = \<lparr>table = None, candidates = []\<rparr>"

definition example_env :: md_env where
  "example_env =
     \<lparr>md_setup = HotelOpen, md_today = 20000, block_page = (\<lambda>a. True),
      visit = (\<lambda>k. if k = 0 then Loaded example_page else if k = 1 then NavThrows
                    else Loaded empty_page)\<rparr>"

text \<open>
  An environment of the single-day scraper: the hotel page shows no price today, the
  first retry fails to load, the second shows nothing and the third shows the example page.
\<close>

definition example_bp :: bp_env where
  "example_bp =
     \<lparr>bp_today = 20000, launch = True, goto_networkidle = False, goto_domcontent = True,
      results_selector = True, load_state = True, screenshot = True, selection = HotelPage,
      table_eval = True, generic_eval = True, hotel_page = empty_page,
      retry = (\<lambda>add. if add = 1 then NavThrows else if add = 3 then Loaded example_page
                       else Loaded empty_page)\<rparr>"





section \<open>Properties of the date-range partition\<close>

lemma dateRanges_small:
  assumes "1 \<le> N" "N \<le> 31"
  shows "dateRanges N = [(0, N - 1)]"
  using assms by (simp add: dateRanges_def min_def)

lemma dateRanges_medium:
  assumes "32 \<le> N" "N \<le> 61"
  shows "dateRanges N = [(0, 30), (31, N - 1)]"
  using assms by (simp add: dateRanges_def min_def)

lemma dateRanges_large:
  assumes "62 \<le> N" "N \<le> 91"
  shows "dateRanges N = [(0, 30), (31, 60), (61, N - 1)]"
  using assms by (simp add: dateRanges_def min_def)

lemma dateRanges_cases:
  assumes "1 \<le> N" "N \<le> 90"
  obtains "dateRanges N = [(0, N - 1)]"
  | "31 \<le> N - 1" "dateRanges N = [(0, 30), (31, N - 1)]"
  | "61 \<le> N - 1" "dateRanges N = [(0, 30), (31, 60), (61, N - 1)]"
proof -
  consider "N \<le> 31" | "32 \<le> N" "N \<le> 61" | "62 \<le> N" by linarith
  then show thesis
  proof cases
    case 1 then show ?thesis using assms that(1) dateRanges_small by simp
  next
    case 2 then show ?thesis using that(2) dateRanges_medium by simp
  next
    case 3 then show ?thesis using assms that(3) dateRanges_large by simp
  qed
qed

lemma dateRanges_concat:
  assumes "1 \<le> N" "N \<le> 90"
  shows "concat (map (\<lambda>(a, b). [a..b]) (dateRanges N)) = [0..N - 1]"
  using assms
proof (cases N rule: dateRanges_cases)
  case 1
  then show ?thesis by simp
next
  case 2
  have "[0..N - 1] = [0..30] @ [31..N - 1]" using 2(1) upto_split1 [of 0 31 "N - 1"] by simp
  then show ?thesis using 2 by simp
next
  case 3
  have "[0..N - 1] = [0..30] @ [31..N - 1]" using 3(1) upto_split1 [of 0 31 "N - 1"] by simp
  moreover have "[31..N - 1] = [31..60] @ [61..N - 1]" using 3(1) upto_split1 [of 31 61 "N - 1"] by simp
  ultimately show ?thesis using 3 by simp
qed

text \<open>
  C4.  For every window length \<open>N\<close> with \<open>1 \<le> N \<le> 90\<close> the partition has at most
  three ranges, every range is a non-empty inclusive interval, consecutive ranges are
  contiguous, the ranges are pairwise disjoint, and their union is exactly the set of
  day offsets \<open>0 .. N - 1\<close>: listed one after the other, the ranges give
  \<open>0, 1, ..., N - 1\<close>.
\<close>

theorem dateRanges_partition:
  assumes "1 \<le> N" "N \<le> 90"
  shows "length (dateRanges N) \<le> 3
    \<and> list_all (\<lambda>(a, b). a \<le> b) (dateRanges N)
    \<and> contiguous (dateRanges N)
    \<and> distinct (concat (map (\<lambda>(a, b). [a..b]) (dateRanges N)))
    \<and> covered (dateRanges N) = {0..N - 1}
    \<and> concat (map (\<lambda>(a, b). [a..b]) (dateRanges N)) = [0..N - 1]"
proof -
  have "length (dateRanges N) \<le> 3
    \<and> list_all (\<lambda>(a, b). a \<le> b) (dateRanges N)
    \<and> contiguous (dateRanges N)
    \<and> distinct (concat (map (\<lambda>(a, b). [a..b]) (dateRanges N)))
    \<and> covered (dateRanges N) = {0..N - 1}"
    using assms
  proof (cases N rule: dateRanges_cases)
    case 1
    then show ?thesis using assms by (simp add: covered_def)
  next
    case 2
    then show ?thesis by (auto simp: covered_def)
  next
    case 3
    then show ?thesis by (auto simp: covered_def)
  qed
  then show ?thesis using dateRanges_concat [OF assms] by simp
qed

theorem dateRanges_partition_witness:
  "dateRanges 45 = [(0, 30), (31, 44)]
    \<and> length (dateRanges 45) \<le> 3
    \<and> contiguous (dateRanges 45)
    \<and> covered (dateRanges 45) = {0..44}"
proof -
  have h: "(1::int) \<le> 45" "(45::int) \<le> 90" by simp_all
  have "dateRanges 45 = [(0, 30), (31, 44)]" by (simp add: dateRanges_def)
  then show ?thesis using dateRanges_partition [OF h] by simp
qed

section \<open>Properties of the price extraction\<close>

lemma dropWhile_self: "xs = [] \<or> \<not> P (hd xs) \<Longrightarrow> dropWhile P xs = xs"
  by (cases xs) auto

lemma trimmed_ends:
  "trim s = [] \<or> (\<not> is_ws (hd (trim s)) \<and> \<not> is_ws (last (trim s)))"
proof (cases "trim s = []")
  case True
  then show ?thesis by simp
next
  case False
  define u where "u = dropWhile is_ws s"
  define v where "v = dropWhile is_ws (rev u)"
  have t: "trim s = rev v" by (simp add: trim_def u_def v_def)
  with False have v: "v \<noteq> []" by simp
  then have hv: "\<not> is_ws (hd v)" unfolding v_def by (rule hd_dropWhile)
  have "rev u = takeWhile is_ws (rev u) @ v" by (simp add: v_def)
  then have "u = rev v @ rev (takeWhile is_ws (rev u))"
    by (metis rev_append rev_rev_ident)
  then have "hd u = hd (rev v)" using v by (metis hd_append2 rev_is_Nil_conv)
  moreover have "u \<noteq> []" using v v_def by auto
  then have "\<not> is_ws (hd u)" unfolding u_def by (rule hd_dropWhile)
  ultimately have "\<not> is_ws (hd (rev v))" by simp
  moreover have "last (rev v) = hd v" using v by (simp add: last_rev)
  ultimately show ?thesis using t hv by simp
qed

lemma trim_nop:
  assumes "s = [] \<or> (\<not> is_ws (hd s) \<and> \<not> is_ws (last s))"
  shows "trim s = s"
proof (cases "s = []")
  case True
  then show ?thesis by (simp add: trim_def)
next
  case False
  with assms have h: "\<not> is_ws (hd s)" and l: "\<not> is_ws (last s)" by simp_all
  have 1: "dropWhile is_ws s = s" using h by (simp add: dropWhile_self)
  have "hd (rev s) = last s" using False by (simp add: hd_rev)
  then have 2: "dropWhile is_ws (rev s) = rev s" using l by (simp add: dropWhile_self)
  show ?thesis by (simp add: trim_def 1 2)
qed

lemma trim_idem [simp]: "trim (trim s) = trim s"
  using trimmed_ends [of s] by (rule trim_nop)

text \<open>
  The final pass keeps records with pairwise different non-empty trimmed labels, each being
  the first record of its label in the input, in the input's order.
\<close>

lemma first_by_type_keys:
  "r \<in> set (first_by_type used rs) \<Longrightarrow>
     trim (room_type r) \<noteq> [] \<and> trim (room_type r) \<notin> used \<and> r \<in> set rs"
  by (induction rs arbitrary: used) (auto simp: Let_def split: if_splits)

lemma first_by_type_distinct:
  "distinct (map (\<lambda>r. trim (room_type r)) (first_by_type used rs))"
proof (induction rs arbitrary: used)
  case Nil
  then show ?case by simp
next
  case (Cons x xs)
  let ?k = "trim (room_type x)"
  have "?k \<notin> (\<lambda>r. trim (room_type r)) ` set (first_by_type (insert ?k used) xs)"
  proof
    assume "?k \<in> (\<lambda>r. trim (room_type r)) ` set (first_by_type (insert ?k used) xs)"
    then obtain r where r: "r \<in> set (first_by_type (insert ?k used) xs)"
      and k: "?k = trim (room_type r)" by auto
    from first_by_type_keys [OF r] have "trim (room_type r) \<notin> insert ?k used" by simp
    with k show False by simp
  qed
  then show ?case using Cons.IH by (simp add: Let_def)
qed

lemma distinct_map_comp: "distinct (map (\<lambda>x. f (g x)) xs) \<Longrightarrow> distinct (map g xs)"
  by (induction xs) auto

lemma first_by_type_distinct_types: "distinct (map room_type (first_by_type used rs))"
  using first_by_type_distinct [of used rs] by (rule distinct_map_comp)

lemma first_by_type_first:
  "r \<in> set (first_by_type used rs) \<Longrightarrow>
     find (\<lambda>x. trim (room_type x) = trim (room_type r)) rs = Some r"
proof (induction rs arbitrary: used)
  case Nil
  then show ?case by simp
next
  case (Cons x xs)
  let ?k = "trim (room_type x)"
  show ?case
  proof (cases "?k = [] \<or> ?k \<in> used")
    case True
    with Cons.prems have r: "r \<in> set (first_by_type used xs)" by (simp add: Let_def)
    then have "trim (room_type r) \<noteq> [] \<and> trim (room_type r) \<notin> used"
      using first_by_type_keys by blast
    with True have "?k \<noteq> trim (room_type r)" by auto
    then show ?thesis using Cons.IH [OF r] by simp
  next
    case False
    with Cons.prems have "r = x \<or> r \<in> set (first_by_type (insert ?k used) xs)"
      by (simp add: Let_def)
    then show ?thesis
    proof
      assume "r = x"
      then show ?thesis by simp
    next
      assume r: "r \<in> set (first_by_type (insert ?k used) xs)"
      then have "trim (room_type r) \<notin> insert ?k used" using first_by_type_keys by blast
      then have "?k \<noteq> trim (room_type r)" by auto
      then show ?thesis using Cons.IH [OF r] by simp
    qed
  qed
qed

lemma first_by_type_subseq: "subseq (first_by_type used rs) rs"
  by (induction rs arbitrary: used) (auto simp: Let_def)

lemma first_by_type_complete:
  "x \<in> set rs \<Longrightarrow> trim (room_type x) \<noteq> [] \<Longrightarrow> trim (room_type x) \<notin> used \<Longrightarrow>
   \<exists>r \<in> set (first_by_type used rs). trim (room_type r) = trim (room_type x)"
proof (induction rs arbitrary: used)
  case Nil
  then show ?case by simp
next
  case (Cons y ys)
  show ?case
  proof (cases "trim (room_type y) = trim (room_type x)")
    case True
    then show ?thesis using Cons.prems by (auto simp: Let_def)
  next
    case False
    with Cons.prems have "x \<in> set ys" by auto
    moreover have "trim (room_type x) \<notin> insert (trim (room_type y)) used"
      using False Cons.prems by auto
    ultimately show ?thesis
      using Cons.IH [of used] Cons.IH [of "insert (trim (room_type y)) used"] Cons.prems
      by (auto simp: Let_def)
  qed
qed

lemma first_by_type_id:
  "distinct (map room_type rs) \<Longrightarrow>
   \<forall>r \<in> set rs. room_type r \<noteq> [] \<and> trim (room_type r) = room_type r \<and> room_type r \<notin> used \<Longrightarrow>
   first_by_type used rs = rs"
proof (induction rs arbitrary: used)
  case Nil
  then show ?case by simp
next
  case (Cons x xs)
  have "first_by_type (insert (room_type x) used) xs = xs"
  proof (rule Cons.IH)
    show "distinct (map room_type xs)" using Cons.prems(1) by simp
    show "\<forall>r \<in> set xs. room_type r \<noteq> [] \<and> trim (room_type r) = room_type r
            \<and> room_type r \<notin> insert (room_type x) used"
      using Cons.prems by (auto simp: image_iff)
  qed
  then show ?case using Cons.prems by (simp add: Let_def)
qed

text \<open>
  The table strategy yields trimmed, non-empty, pairwise different labels, so the final pass
  returns its output unchanged.
\<close>

lemma table_scan_labels:
  "r \<in> set (table_scan label price_of src seen rows) \<Longrightarrow>
     (\<exists>row \<in> set rows. label row = Some (room_type r) \<and> price_of row = Some (price r))
      \<and> room_type r \<notin> seen \<and> source r = src"
  by (induction rows arbitrary: seen) (auto split: if_splits option.splits)

lemma table_scan_distinct: "distinct (map room_type (table_scan label price_of src seen rows))"
proof (induction rows arbitrary: seen)
  case Nil
  then show ?case by simp
next
  case (Cons x xs)
  show ?case
    using Cons.IH table_scan_labels [of _ label price_of src _ xs]
    by (auto split: option.splits)
qed

lemma table_scan_fixed:
  assumes "\<And>row n. label row = Some n \<Longrightarrow> n \<noteq> [] \<and> trim n = n"
  shows "first_by_type {} (table_scan label price_of src {} rows) = table_scan label price_of src {} rows"
proof (rule first_by_type_id)
  show "distinct (map room_type (table_scan label price_of src {} rows))"
    by (rule table_scan_distinct)
  show "\<forall>r \<in> set (table_scan label price_of src {} rows).
          room_type r \<noteq> [] \<and> trim (room_type r) = room_type r \<and> room_type r \<notin> {}"
    using table_scan_labels [of _ label price_of src "{}" rows] assms by fastforce
qed

lemma main_label_trimmed: "main_label row = Some n \<Longrightarrow> n \<noteq> [] \<and> trim n = n"
  by (auto simp: main_label_def Let_def clean_label_def split: if_splits)

lemma day_label_trimmed: "day_label row = Some n \<Longrightarrow> n \<noteq> [] \<and> trim n = n"
  by (auto simp: day_label_def Let_def split: if_splits)

lemma retry_label_trimmed: "retry_label row = Some n \<Longrightarrow> n \<noteq> [] \<and> trim n = n"
  by (auto simp: retry_label_def Let_def split: if_splits)

lemma hprt_main_fixed: "first_by_type {} (hprt_main pg) = hprt_main pg"
  by (simp add: hprt_main_def table_scan_fixed main_label_trimmed split: option.split)

lemma hprt_day_fixed: "first_by_type {} (hprt_day pg) = hprt_day pg"
  by (simp add: hprt_day_def table_scan_fixed day_label_trimmed split: option.split)

lemma hprt_retry_fixed: "first_by_type {} (hprt_retry pg) = hprt_retry pg"
  by (simp add: hprt_retry_def table_scan_fixed retry_label_trimmed split: option.split)

text \<open>The final pass is the specification's: it retains the earliest record of every label.\<close>

lemma positions_Cons:
  "map (\<lambda>i. (r # rs) ! i) (filter Q [0..<length (r # rs)])
     = (if Q 0 then [r] else []) @ map (\<lambda>i. rs ! i) (filter (\<lambda>i. Q (Suc i)) [0..<length rs])"
proof -
  have up: "[0..<length (r # rs)] = 0 # map Suc [0..<length rs]"
    by (simp add: upt_conv_Cons map_Suc_upt del: upt_Suc)
  have shift: "filter Q (map Suc xs) = map Suc (filter (\<lambda>i. Q (Suc i)) xs)" for xs :: "nat list"
    by (induction xs) auto
  show ?thesis unfolding up by (simp add: shift comp_def)
qed

lemma first_by_type_positions:
  "first_by_type used rs =
     map (\<lambda>i. rs ! i)
       (filter (\<lambda>i. trim (room_type (rs ! i)) \<noteq> [] \<and> trim (room_type (rs ! i)) \<notin> used
                  \<and> (\<forall>j < i. trim (room_type (rs ! j)) \<noteq> trim (room_type (rs ! i))))
          [0..<length rs])"
proof (induction rs arbitrary: used)
  case Nil
  then show ?case by simp
next
  case (Cons r rs)
  let ?k = "\<lambda>x. trim (room_type x)"
  let ?Q = "\<lambda>i. ?k ((r # rs) ! i) \<noteq> [] \<and> ?k ((r # rs) ! i) \<notin> used
                  \<and> (\<forall>j < i. ?k ((r # rs) ! j) \<noteq> ?k ((r # rs) ! i))"
  show ?case
  proof (cases "?k r = [] \<or> ?k r \<in> used")
    case True
    have "?Q (Suc i)
        = (?k (rs ! i) \<noteq> [] \<and> ?k (rs ! i) \<notin> used
            \<and> (\<forall>j < i. ?k (rs ! j) \<noteq> ?k (rs ! i)))" for i
      using True by (auto simp: All_less_Suc2)
    moreover have "\<not> ?Q 0" using True by auto
    moreover have "first_by_type used (r # rs) = first_by_type used rs"
      using True by (simp add: Let_def)
    ultimately show ?thesis
      unfolding positions_Cons [of r rs ?Q] using Cons.IH [of used] by simp
  next
    case False
    have "?Q (Suc i)
        = (?k (rs ! i) \<noteq> [] \<and> ?k (rs ! i) \<notin> insert (?k r) used
            \<and> (\<forall>j < i. ?k (rs ! j) \<noteq> ?k (rs ! i)))" for i
      by (auto simp: All_less_Suc2)
    moreover have "?Q 0" using False by auto
    moreover have "first_by_type used (r # rs) = r # first_by_type (insert (?k r) used) rs"
      using False by (simp add: Let_def)
    ultimately show ?thesis
      unfolding positions_Cons [of r rs ?Q] using Cons.IH [of "insert (?k r) used"] by simp
  qed
qed

lemma first_by_type_keep_earliest: "first_by_type {} rs = keep_earliest rs"
  by (simp add: first_by_type_positions keep_earliest_def)

lemma first_of_key_kept:
  assumes "x \<in> set rs" "trim (room_type x) \<noteq> []"
  shows "\<exists>r \<in> set (first_by_type {} rs).
           find (\<lambda>y. trim (room_type y) = trim (room_type x)) rs = Some r"
proof -
  from first_by_type_complete [OF assms, of "{}"]
  obtain r where r: "r \<in> set (first_by_type {} rs)" "trim (room_type r) = trim (room_type x)"
    by auto
  from first_by_type_first [OF r(1)] r(2) show ?thesis using r(1) by auto
qed

lemma first_by_type_labelled: "r \<in> set (first_by_type used rs) \<Longrightarrow> trim (room_type r) \<noteq> []"
  by (induction rs arbitrary: used) (auto simp: Let_def split: if_splits)
section \<open>Properties of the multi-day scheduler\<close>

lemma run_trace_stop: "runnable s = [] \<Longrightarrow> run_trace env sched s = [s]"
  by (subst run_trace.simps) simp

lemma run_trace_go:
  "runnable s \<noteq> [] \<Longrightarrow>
   run_trace env sched s = s # run_trace env (tl sched) (step_unit env (pick sched (runnable s)) s)"
  by (subst run_trace.simps) simp

lemma run_trace_invariant:
  assumes "P s" and step: "\<And>t i. P t \<Longrightarrow> i \<in> set (runnable t) \<Longrightarrow> P (step_unit env i t)"
  shows "\<forall>t \<in> set (run_trace env sched s). P t"
  using assms(1)
proof (induction "work s" arbitrary: s sched rule: less_induct)
  case less
  show ?case
  proof (cases "runnable s = []")
    case True
    then show ?thesis using less.prems by (simp add: run_trace_stop)
  next
    case False
    let ?i = "pick sched (runnable s)"
    have i: "?i \<in> set (runnable s)" using False by (rule pick_runnable)
    have "work (step_unit env ?i s) < work s" using i by (rule step_unit_work)
    moreover have "P (step_unit env ?i s)" using less.prems i by (rule step)
    ultimately have "\<forall>t \<in> set (run_trace env (tl sched) (step_unit env ?i s)). P t"
      by (rule less.hyps)
    then show ?thesis using less.prems by (simp add: run_trace_go [OF False])
  qed
qed

lemma run_trace_nonempty: "run_trace env sched s \<noteq> []"
  by (cases "runnable s = []") (simp_all add: run_trace_stop run_trace_go)

lemma run_trace_last_in: "last (run_trace env sched s) \<in> set (run_trace env sched s)"
  using run_trace_nonempty by simp

lemma run_trace_final: "runnable (last (run_trace env sched s)) = []"
proof (induction "work s" arbitrary: s sched rule: less_induct)
  case less
  show ?case
  proof (cases "runnable s = []")
    case True
    then show ?thesis by (simp add: run_trace_stop)
  next
    case False
    let ?i = "pick sched (runnable s)"
    have i: "?i \<in> set (runnable s)" using False by (rule pick_runnable)
    have "work (step_unit env ?i s) < work s" using i by (rule step_unit_work)
    then have "runnable (last (run_trace env (tl sched) (step_unit env ?i s))) = []"
      by (rule less.hyps)
    then show ?thesis by (simp add: run_trace_go [OF False] run_trace_nonempty)
  qed
qed

lemma step_unit_cases:
  assumes "i \<in> set (runnable s)"
  obtains (opened) a b where "units s ! i = (a, b, Opening)" "block_page env a"
      "step_unit env i s = s\<lparr>units := (units s)[i := (a, b, Visiting a)]\<rparr>"
  | (rejected) a b where "units s ! i = (a, b, Opening)" "\<not> block_page env a"
      "step_unit env i s = s\<lparr>units := (units s)[i := (a, b, Rejected)]\<rparr>"
  | (visited) a b offset where "units s ! i = (a, b, Visiting offset)" "offset \<le> b"
      "step_unit env i s = s\<lparr>units := (units s)[i := (a, b, Visiting (offset + 1))],
                             results := results s @ [processDay env offset]\<rparr>"
  | (closed) a b offset where "units s ! i = (a, b, Visiting offset)" "b < offset"
      "step_unit env i s = s\<lparr>units := (units s)[i := (a, b, Closed)]\<rparr>"
proof -
  from assms have i: "i < length (units s)" and l: "live (snd (snd (units s ! i)))"
    by (simp_all add: runnable_iff)
  obtain a b st where u: "units s ! i = (a, b, st)" by (cases "units s ! i")
  show thesis
  proof (cases st)
    case Opening
    show ?thesis
    proof (cases "block_page env a")
      case True
      have "step_unit env i s = s\<lparr>units := (units s)[i := (a, b, Visiting a)]\<rparr>"
        using i u Opening True by (simp add: step_unit_def)
      with u Opening True show ?thesis by (rule_tac opened) auto
    next
      case False
      have "step_unit env i s = s\<lparr>units := (units s)[i := (a, b, Rejected)]\<rparr>"
        using i u Opening False by (simp add: step_unit_def)
      with u Opening False show ?thesis by (rule_tac rejected) auto
    qed
  next
    case (Visiting offset)
    show ?thesis
    proof (cases "offset \<le> b")
      case True
      have "step_unit env i s = s\<lparr>units := (units s)[i := (a, b, Visiting (offset + 1))],
                             results := results s @ [processDay env offset]\<rparr>"
        using i u Visiting True by (simp add: step_unit_def)
      with u Visiting True show ?thesis by (rule_tac visited) auto
    next
      case False
      have "step_unit env i s = s\<lparr>units := (units s)[i := (a, b, Closed)]\<rparr>"
        using i u Visiting False by (simp add: step_unit_def)
      with u Visiting False show ?thesis by (rule_tac closed) auto
    qed
  next
    case Closed
    then show ?thesis using l u by simp
  next
    case Rejected
    then show ?thesis using l u by simp
  qed
qed

lemma date_processDay [simp]: "date (processDay env k) = md_today env + k"
  by (simp add: processDay_def Let_def split: day_visit.split)

text \<open>Days visited plus days still to visit: a step moves one day from the second to the first.\<close>

lemma step_unit_days:
  assumes "i \<in> set (runnable s)"
  shows "offsets_done env (step_unit env i s) + sum_list (map pending (units (step_unit env i s)))
       = offsets_done env s + sum_list (map pending (units s))"
proof -
  from assms have i: "i < length (units s)" by (simp add: runnable_iff)
  note upd = sum_list_map_update [OF i, of pending]
  from assms show ?thesis
  proof (cases rule: step_unit_cases [where env = env])
    case (opened a b)
    then show ?thesis using upd [of "(a, b, Visiting a)"] by (simp add: offsets_done_def)
  next
    case (rejected a b)
    then show ?thesis using upd [of "(a, b, Rejected)"] by (simp add: offsets_done_def)
  next
    case (visited a b offset)
    then have "mset [offset..b] = {#offset#} + mset [offset + 1..b]"
      by (simp add: upto_rec1)
    then show ?thesis using visited upd [of "(a, b, Visiting (offset + 1))"]
      by (simp add: offsets_done_def)
  next
    case (closed a b offset)
    then show ?thesis using upd [of "(a, b, Closed)"] by (simp add: offsets_done_def)
  qed
qed

lemma offsets_done_eq: "offsets_done env s = mset (day_offsets env (results s))"
  by (simp add: offsets_done_def day_offsets_def)

lemma run_trace_days:
  assumes "t \<in> set (run_trace env sched s)"
  shows "offsets_done env t + sum_list (map pending (units t))
       = offsets_done env s + sum_list (map pending (units s))"
proof -
  let ?P = "\<lambda>t. offsets_done env t + sum_list (map pending (units t))
       = offsets_done env s + sum_list (map pending (units s))"
  have "\<forall>t \<in> set (run_trace env sched s). ?P t"
  proof (rule run_trace_invariant)
    show "?P s" by simp
  next
    fix t i assume "?P t" "i \<in> set (runnable t)"
    then show "?P (step_unit env i t)" using step_unit_days [of i t env] by simp
  qed
  with assms show ?thesis by blast
qed

lemma run_trace_not_rejected:
  assumes "\<forall>a. block_page env a" "\<forall>u \<in> set (units s). snd (snd u) \<noteq> Rejected"
    "t \<in> set (run_trace env sched s)"
  shows "\<forall>u \<in> set (units t). snd (snd u) \<noteq> Rejected"
proof -
  let ?P = "\<lambda>t. \<forall>u \<in> set (units t). snd (snd u) \<noteq> Rejected"
  have "\<forall>t \<in> set (run_trace env sched s). ?P t"
  proof (rule run_trace_invariant)
    show "?P s" by (rule assms(2))
  next
    fix t i assume P: "?P t" and i: "i \<in> set (runnable t)"
    from i show "?P (step_unit env i t)"
    proof (cases rule: step_unit_cases [where env = env])
      case (opened a b)
      then show ?thesis using P by (auto dest!: set_update_subset_insert [THEN subsetD])
    next
      case (rejected a b)
      then show ?thesis using assms(1) by simp
    next
      case (visited a b offset)
      then show ?thesis using P by (auto dest!: set_update_subset_insert [THEN subsetD])
    next
      case (closed a b offset)
      then show ?thesis using P by (auto dest!: set_update_subset_insert [THEN subsetD])
    qed
  qed
  with assms(3) show ?thesis by blast
qed

lemma run_trace_entries:
  assumes "\<forall>e \<in> set (results s). e = processDay env (date e - md_today env)"
    "t \<in> set (run_trace env sched s)"
  shows "\<forall>e \<in> set (results t). e = processDay env (date e - md_today env)"
proof -
  let ?P = "\<lambda>t. \<forall>e \<in> set (results t). e = processDay env (date e - md_today env)"
  have "\<forall>t \<in> set (run_trace env sched s). ?P t"
  proof (rule run_trace_invariant)
    show "?P s" by (rule assms(1))
  next
    fix t i assume P: "?P t" and i: "i \<in> set (runnable t)"
    from i show "?P (step_unit env i t)"
      by (cases rule: step_unit_cases [where env = env]) (use P in auto)
  qed
  with assms(2) show ?thesis by blast
qed

lemma all_closed_pending:
  assumes "\<forall>u \<in> set us. snd (snd u) = Closed"
  shows "sum_list (map pending us) = {#}"
  using assms by (induction us) auto

lemma final_all_closed:
  assumes "runnable s = []" "\<forall>u \<in> set (units s). snd (snd u) \<noteq> Rejected"
  shows "\<forall>u \<in> set (units s). snd (snd u) = Closed"
proof
  fix u assume "u \<in> set (units s)"
  then obtain i where i: "i < length (units s)" "units s ! i = u" by (auto simp: in_set_conv_nth)
  with assms(1) have "\<not> live (snd (snd u))"
    using runnable_iff [of i s] by auto
  moreover have "snd (snd u) \<noteq> Rejected" using assms(2) \<open>u \<in> set (units s)\<close> by blast
  ultimately show "snd (snd u) = Closed" by (cases "snd (snd u)") auto
qed

lemma start_pending:
  "sum_list (map pending (units (start_units (dateRanges days))))
    = mset (concat (map (\<lambda>(a, b). [a..b]) (dateRanges days)))"
proof -
  have "sum_list (map pending (map (\<lambda>(a, b). (a, b, Opening)) rs))
      = mset (concat (map (\<lambda>(a, b). [a..b]) rs))" for rs
    by (induction rs) auto
  then show ?thesis by (simp add: start_units_def)
qed

lemma in_range_simp [simp]: "in_range (a, b, st) = (\<lambda>k. a \<le> k \<and> k \<le> b)"
  by (simp add: in_range_def fun_eq_iff)

lemma ranges_disjoint_update:
  assumes "ranges_disjoint us" "i < length us" "us ! i = (a, b, st)"
  shows "ranges_disjoint (us[i := (a, b, st')])"
  unfolding ranges_disjoint_def
proof (intro allI impI)
  fix j l k assume j: "j < length (us[i := (a, b, st')])" and l: "l < length (us[i := (a, b, st')])"
    and ne: "j \<noteq> l"
  have r: "in_range (us[i := (a, b, st')] ! m) k = in_range (us ! m) k" if "m < length us" for m
    using that assms(2,3) by (cases "m = i") (simp_all add: in_range_def)
  from assms(1) j l ne show "\<not> (in_range (us[i := (a, b, st')] ! j) k \<and> in_range (us[i := (a, b, st')] ! l) k)"
    using r by (simp add: ranges_disjoint_def)
qed

lemma unit_in_order_other:
  assumes "unit_in_order done u" "\<not> in_range u k"
  shows "unit_in_order (done @ [k]) u"
  using assms by (simp add: unit_in_order_def)

lemma step_unit_in_order:
  assumes "in_order env s" "i \<in> set (runnable s)"
  shows "in_order env (step_unit env i s)"
proof -
  from assms(2) have i: "i < length (units s)" by (simp add: runnable_iff)
  from assms(1) have dis: "ranges_disjoint (units s)"
    and ord: "\<And>j. j < length (units s) \<Longrightarrow> unit_in_order (day_offsets env (results s)) (units s ! j)"
    by (simp_all add: in_order_def)
  from assms(2) show ?thesis
  proof (cases rule: step_unit_cases [where env = env])
    case (opened a b)
    have "unit_in_order (day_offsets env (results s)) ((units s)[i := (a, b, Visiting a)] ! j)"
      if "j < length (units s)" for j
      using ord [OF that] ord [OF i] opened(1) that
      by (cases "j = i") (simp_all add: unit_in_order_def in_range_def)
    then show ?thesis
      using opened ranges_disjoint_update [OF dis i opened(1)] by (simp add: in_order_def)
  next
    case (rejected a b)
    have "unit_in_order (day_offsets env (results s)) ((units s)[i := (a, b, Rejected)] ! j)"
      if "j < length (units s)" for j
      using ord [OF that] ord [OF i] rejected(1) that
      by (cases "j = i") (simp_all add: unit_in_order_def in_range_def)
    then show ?thesis
      using rejected ranges_disjoint_update [OF dis i rejected(1)] by (simp add: in_order_def)
  next
    case (closed a b offset)
    have "unit_in_order (day_offsets env (results s)) ((units s)[i := (a, b, Closed)] ! j)"
      if "j < length (units s)" for j
    proof (cases "j = i")
      case True
      from ord [OF i] closed(1,2) have "offset = b + 1" by (simp add: unit_in_order_def)
      then show ?thesis using True ord [OF i] closed(1) i
        by (simp add: unit_in_order_def in_range_def)
    next
      case False
      then show ?thesis using ord [OF that] by simp
    qed
    then show ?thesis
      using closed ranges_disjoint_update [OF dis i closed(1)] by (simp add: in_order_def)
  next
    case (visited a b offset)
    let ?done = "day_offsets env (results s)"
    have off: "day_offsets env (results s @ [processDay env offset]) = ?done @ [offset]"
      by (simp add: day_offsets_def)
    from ord [OF i] visited(1) have a: "a \<le> offset"
      and f: "filter (in_range (a, b, Visiting offset)) ?done = [a..offset - 1]"
      by (simp_all add: unit_in_order_def)
    have "unit_in_order (?done @ [offset]) ((units s)[i := (a, b, Visiting (offset + 1))] ! j)"
      if j: "j < length (units s)" for j
    proof (cases "j = i")
      case True
      have "filter (in_range (a, b, Visiting (offset + 1))) ?done = [a..offset - 1]"
        using f by (simp add: in_range_def)
      moreover have "[a..offset - 1] @ [offset] = [a..offset]"
        using a upto_rec2 [of a offset] by simp
      ultimately show ?thesis using True i a visited(2)
        by (simp add: unit_in_order_def)
    next
      case False
      have "\<not> in_range (units s ! j) offset"
        using dis i j False visited(1,2) a
        by (auto simp: ranges_disjoint_def)
      then show ?thesis using False ord [OF j] by (simp add: unit_in_order_other)
    qed
    then show ?thesis
      using visited ranges_disjoint_update [OF dis i visited(1)] off by (simp add: in_order_def)
  qed
qed

lemma run_trace_in_order:
  assumes "in_order env s" "t \<in> set (run_trace env sched s)"
  shows "in_order env t"
  using run_trace_invariant [of "in_order env" s env sched] assms step_unit_in_order by blast

lemma start_in_order:
  assumes "1 \<le> N" "N \<le> 90"
  shows "in_order env (start_units (dateRanges N))"
proof -
  have len: "length (dateRanges N) \<le> 3" using assms
    by (cases N rule: dateRanges_cases) simp_all
  from assms show ?thesis
  proof (cases N rule: dateRanges_cases)
    case 1
    then show ?thesis using assms
      by (simp add: in_order_def start_units_def ranges_disjoint_def unit_in_order_def day_offsets_def)
  next
    case 2
    then show ?thesis
      by (auto simp: in_order_def start_units_def ranges_disjoint_def unit_in_order_def
            day_offsets_def less_Suc_eq nth_Cons')
  next
    case 3
    then show ?thesis
      by (auto simp: in_order_def start_units_def ranges_disjoint_def unit_in_order_def
            day_offsets_def less_Suc_eq nth_Cons' numeral_2_eq_2 numeral_3_eq_3)
  qed
qed

lemma ranges_update:
  assumes "i < length us" "us ! i = (a, b, st)"
  shows "map (\<lambda>u. (fst u, fst (snd u))) (us[i := (a, b, st')]) = map (\<lambda>u. (fst u, fst (snd u))) us"
  using assms by (simp add: map_update list_update_same_conv)

lemma step_unit_ranges:
  assumes "i \<in> set (runnable t)"
  shows "map (\<lambda>u. (fst u, fst (snd u))) (units (step_unit env i t))
       = map (\<lambda>u. (fst u, fst (snd u))) (units t)"
proof -
  from assms have i: "i < length (units t)" by (simp add: runnable_iff)
  from assms show ?thesis
    by (cases rule: step_unit_cases [where env = env]) (simp_all add: ranges_update [OF i])
qed

lemma scrapeMultipleDates_run:
  fixes env :: md_env and sched :: "nat list" and days :: int
  assumes N: "1 \<le> days" "days \<le> 90"
    and pages: "\<forall>a. block_page env a"
  defines "final \<equiv> last (run_trace env sched (start_units (dateRanges days)))"
  shows "\<forall>u \<in> set (units final). snd (snd u) = Closed"
    and "mset (day_offsets env (results final)) = mset [0..days - 1]"
    and "\<forall>e \<in> set (results final). e = processDay env (date e - md_today env)"
    and "\<forall>(a, b) \<in> set (dateRanges days).
           filter (\<lambda>k. a \<le> k \<and> k \<le> b) (day_offsets env (results final)) = [a..b]"
proof -
  let ?s = "start_units (dateRanges days)"
  have fin: "final \<in> set (run_trace env sched ?s)"
    unfolding final_def by (rule run_trace_last_in)
  have "\<forall>u \<in> set (units ?s). snd (snd u) \<noteq> Rejected"
    by (auto simp: start_units_def)
  with pages have "\<forall>u \<in> set (units final). snd (snd u) \<noteq> Rejected"
    using fin by (rule run_trace_not_rejected)
  moreover have "runnable final = []" unfolding final_def by (rule run_trace_final)
  ultimately show closed: "\<forall>u \<in> set (units final). snd (snd u) = Closed"
    by (rule final_all_closed [rotated])
  have "offsets_done env final + sum_list (map pending (units final))
      = offsets_done env ?s + sum_list (map pending (units ?s))"
    using fin by (rule run_trace_days)
  moreover have "sum_list (map pending (units final)) = {#}"
    using closed by (rule all_closed_pending)
  moreover have "offsets_done env ?s = {#}" by (simp add: offsets_done_def start_units_def)
  ultimately show "mset (day_offsets env (results final)) = mset [0..days - 1]"
    using start_pending [of days] dateRanges_concat [OF N] by (simp add: offsets_done_eq)
  have "\<forall>e \<in> set (results ?s). e = processDay env (date e - md_today env)"
    by (simp add: start_units_def)
  then show "\<forall>e \<in> set (results final). e = processDay env (date e - md_today env)"
    using fin by (rule run_trace_entries)
  have ord: "in_order env final"
    using start_in_order [OF N] fin by (rule run_trace_in_order)
  have ranges: "map (\<lambda>u. (fst u, fst (snd u))) (units final) = dateRanges days"
  proof -
    let ?P = "\<lambda>t. map (\<lambda>u. (fst u, fst (snd u))) (units t) = dateRanges days"
    have "\<forall>t \<in> set (run_trace env sched ?s). ?P t"
    proof (rule run_trace_invariant)
      show "?P ?s" by (simp add: start_units_def case_prod_beta comp_def)
    next
      fix t i assume P: "?P t" and i: "i \<in> set (runnable t)"
      then show "?P (step_unit env i t)" by (simp add: step_unit_ranges)
    qed
    with fin show ?thesis by blast
  qed
  show "\<forall>(a, b) \<in> set (dateRanges days).
           filter (\<lambda>k. a \<le> k \<and> k \<le> b) (day_offsets env (results final)) = [a..b]"
  proof (clarify)
    fix a b assume "(a, b) \<in> set (dateRanges days)"
    then have "(a, b) \<in> set (map (\<lambda>u. (fst u, fst (snd u))) (units final))"
      using ranges by simp
    then obtain u where u: "u \<in> set (units final)" "a = fst u" "b = fst (snd u)" by auto
    then obtain i where i: "i < length (units final)" "units final ! i = u"
      by (auto simp: in_set_conv_nth)
    from closed u have st: "snd (snd u) = Closed" by blast
    from u(2,3) st have ueq: "u = (a, b, Closed)" by (simp add: prod_eq_iff)
    from ord i have "unit_in_order (day_offsets env (results final)) u"
      by (auto simp: in_order_def)
    then show "filter (\<lambda>k. a \<le> k \<and> k \<le> b) (day_offsets env (results final)) = [a..b]"
      unfolding ueq by (simp add: unit_in_order_def)
  qed
qed

lemma processDay_failed:
  "(\<forall>pg. visit env k \<noteq> Loaded pg) \<Longrightarrow> processDay env k = \<lparr>date = md_today env + k, rooms = []\<rparr>"
  by (cases "visit env k") (simp_all add: processDay_def)

lemma processDay_candidates:
  "processDay env k = \<lparr>date = md_today env + k, rooms = first_by_type {} (day_candidates env k)\<rparr>"
  by (cases "visit env k") (simp_all add: processDay_def day_candidates_def)

lemma dateRanges_distinct: "distinct (concat (map (\<lambda>(a, b). [a..b]) (dateRanges N)))"
  by (auto simp: dateRanges_def min_def)

lemma run_offsets:
  fixes env :: md_env and sched :: "nat list" and days :: int
  defines "final \<equiv> last (run_trace env sched (start_units (dateRanges days)))"
  assumes "\<forall>u \<in> set (units final). snd (snd u) \<noteq> Rejected"
  shows "mset (day_offsets env (results final)) = mset (concat (map (\<lambda>(a, b). [a..b]) (dateRanges days)))"
    and "\<forall>e \<in> set (results final). e = processDay env (date e - md_today env)"
proof -
  let ?s = "start_units (dateRanges days)"
  have fin: "final \<in> set (run_trace env sched ?s)"
    unfolding final_def by (rule run_trace_last_in)
  have "runnable final = []" unfolding final_def by (rule run_trace_final)
  then have closed: "\<forall>u \<in> set (units final). snd (snd u) = Closed"
    using assms(2) by (rule final_all_closed)
  have "offsets_done env final + sum_list (map pending (units final))
      = offsets_done env ?s + sum_list (map pending (units ?s))"
    using fin by (rule run_trace_days)
  moreover have "sum_list (map pending (units final)) = {#}"
    using closed by (rule all_closed_pending)
  moreover have "offsets_done env ?s = {#}" by (simp add: offsets_done_def start_units_def)
  ultimately show "mset (day_offsets env (results final))
      = mset (concat (map (\<lambda>(a, b). [a..b]) (dateRanges days)))"
    using start_pending [of days] by (simp add: offsets_done_eq)
  have "\<forall>e \<in> set (results ?s). e = processDay env (date e - md_today env)"
    by (simp add: start_units_def)
  then show "\<forall>e \<in> set (results final). e = processDay env (date e - md_today env)"
    using fin by (rule run_trace_entries)
qed

lemma scrapeMultipleDates_Inr:
  assumes "scrapeMultipleDates env sched days concurrency = Inr out"
  shows "distinct (map date out) \<and> (\<forall>e \<in> set out. e = processDay env (date e - md_today env))"
proof (cases "md_setup env = HotelOpen")
  case False
  with assms have "out = []"
    by (cases "md_setup env") (simp_all add: scrapeMultipleDates_def)
  then show ?thesis by simp
next
  case True
  define final where "final = last (run_trace env sched (start_units (dateRanges days)))"
  from assms True have nr: "\<not> list_ex (\<lambda>(a, b, st). st = Rejected) (units final)"
    and out: "out = results final"
    by (auto simp: scrapeMultipleDates_def scrapeMultipleDates_states_def Let_def final_def
          split: if_splits)
  from nr have "\<forall>u \<in> set (units final). snd (snd u) \<noteq> Rejected"
    by (auto simp: list_ex_iff)
  note run = run_offsets [of env sched days, folded final_def, OF this]
  from run(1) have "distinct (day_offsets env (results final))"
    using dateRanges_distinct [of days] by (metis mset_eq_imp_distinct_iff)
  then have "distinct (map date (results final))"
    unfolding day_offsets_def by (rule distinct_map_comp)
  then show ?thesis using run(2) out by simp
qed

lemma natural_keys_distinct:
  assumes "distinct (map date out)" "\<forall>e \<in> set out. distinct (map room_type (rooms e))"
  shows "distinct (natural_keys out)"
  using assms
proof (induction out)
  case Nil
  then show ?case by (simp add: natural_keys_def)
next
  case (Cons e es)
  have d1: "distinct (map (\<lambda>r. (date e, room_type r)) (rooms e))"
    using Cons.prems(2) by (simp add: distinct_map inj_on_def)
  have d2: "distinct (natural_keys es)" using Cons by simp
  have "set (map (\<lambda>r. (date e, room_type r)) (rooms e)) \<inter> set (natural_keys es) = {}"
    using Cons.prems(1) by (auto simp: natural_keys_def)
  with d1 d2 show ?case by (simp add: natural_keys_def)
qed

section \<open>Properties of the single-day price scraper\<close>

lemma retry_loop_done: "5 < add \<Longrightarrow> retry_loop env add attempted = (attempted, Inr [])"
  by (subst retry_loop.simps) simp

lemma retry_loop_hit:
  "add \<le> 5 \<Longrightarrow> retry_unique env add \<noteq> [] \<Longrightarrow>
   retry_loop env add attempted
     = (attempted @ [bp_today env + int add],
        Inr [\<lparr>date = bp_today env + int add, rooms = retry_unique env add\<rparr>])"
  by (subst retry_loop.simps) (simp add: retry_unique_def Let_def split: day_visit.splits)

lemma retry_loop_miss:
  "add \<le> 5 \<Longrightarrow> retry_unique env add = [] \<Longrightarrow>
   retry_loop env add attempted = retry_loop env (add + 1) (attempted @ [bp_today env + int add])"
  by (subst retry_loop.simps) (simp add: retry_unique_def Let_def split: day_visit.splits)

lemma retry_loop_spec:
  "retry_loop env add attempted =
     (case find (\<lambda>k. retry_unique env k \<noteq> []) [add..<6] of
        None \<Rightarrow> (attempted @ retry_dates env add 6, Inr [])
      | Some k \<Rightarrow>
          (attempted @ retry_dates env add (Suc k),
           Inr [\<lparr>date = bp_today env + int k, rooms = retry_unique env k\<rparr>]))"
proof (induction "6 - add" arbitrary: add attempted rule: less_induct)
  case less
  show ?case
  proof (cases "add \<le> 5")
    case False
    then show ?thesis by (simp add: retry_loop_done retry_dates_def)
  next
    case True
    then have up: "[add..<6] = add # [Suc add..<6]" by (simp add: upt_conv_Cons)
    show ?thesis
    proof (cases "retry_unique env add = []")
      case False
      then show ?thesis using True by (simp add: retry_loop_hit up retry_dates_def)
    next
      case miss: True
      have "6 - (add + 1) < 6 - add" using True by simp
      note IH = less.hyps [OF this, of "attempted @ [bp_today env + int add]"]
      show ?thesis
      proof (cases "find (\<lambda>k. retry_unique env k \<noteq> []) [Suc add..<6]")
        case None
        then show ?thesis using True miss IH
          by (simp add: retry_loop_miss up retry_dates_def)
      next
        case (Some k)
        then have "k \<in> set [Suc add..<6]" by (auto simp: find_Some_iff)
        then have "[add..<Suc k] = add # [Suc add..<Suc k]" by (simp add: upt_conv_Cons)
        then show ?thesis using True miss IH Some
          by (simp add: retry_loop_miss up retry_dates_def)
      qed
    qed
  qed
qed

lemma scrapeBookingPrices_reached:
  assumes "reaches_extraction env"
  shows "scrapeBookingPrices env =
     (let firstPriceByType = first_by_type {} (main_rooms (generic_eval env) (hotel_page env)) in
      if firstPriceByType \<noteq> []
      then ([bp_today env], Inr [\<lparr>date = bp_today env, rooms = firstPriceByType\<rparr>])
      else retry_loop env 1 [bp_today env])"
  using assms by (auto simp: reaches_extraction_def scrapeBookingPrices_def Let_def)

lemma retry_loop_attempts:
  "\<exists>j. add \<le> j \<and> j \<le> max add 6 \<and> fst (retry_loop env add attempted) = attempted @ retry_dates env add j"
proof (cases "find (\<lambda>k. retry_unique env k \<noteq> []) [add..<6]")
  case None
  then show ?thesis
    by (cases "add \<le> 6") (auto simp: retry_loop_spec retry_dates_def intro: exI [of _ 6] exI [of _ add])
next
  case (Some k)
  then have "k \<in> set [add..<6]" by (auto simp: find_Some_iff)
  then show ?thesis using Some by (auto simp: retry_loop_spec intro!: exI [of _ "Suc k"])
qed


lemma scrapeBookingPrices_attempts:
  "\<exists>j \<le> 6. fst (scrapeBookingPrices env) = take j (bp_today env # retry_dates env 1 6)"
proof -
  have r: "\<exists>j \<le> 6. fst (retry_loop env 1 [bp_today env]) = take j (bp_today env # retry_dates env 1 6)"
  proof -
    from retry_loop_attempts [of 1 env "[bp_today env]"]
    obtain j where j: "1 \<le> j" "j \<le> 6"
      "fst (retry_loop env 1 [bp_today env]) = [bp_today env] @ retry_dates env 1 j" by auto
    have "retry_dates env 1 j = take (j - 1) (retry_dates env 1 6)"
      using j by (simp add: retry_dates_def take_map)
    then have "fst (retry_loop env 1 [bp_today env]) = take j (bp_today env # retry_dates env 1 6)"
      using j by (cases j) simp_all
    with j show ?thesis by blast
  qed
  have t0: "[] = take 0 (bp_today env # retry_dates env 1 6)" by simp
  have t1: "[bp_today env] = take 1 (bp_today env # retry_dates env 1 6)" by simp
  show ?thesis
    unfolding scrapeBookingPrices_def Let_def
    using r
    by (auto split: selection_outcome.split intro: exI [of _ 0] exI [of _ 1])
qed

lemma scrapeBookingPrices_Inr:
  assumes "snd (scrapeBookingPrices env) = Inr out"
  shows "out = []
    \<or> out = [\<lparr>date = bp_today env,
               rooms = first_by_type {} (main_rooms (generic_eval env) (hotel_page env))\<rparr>]
    \<or> (\<exists>k \<in> {1..5}. out = [\<lparr>date = bp_today env + int k, rooms = retry_unique env k\<rparr>])"
proof -
  have r: "snd (retry_loop env 1 [bp_today env]) = Inr out \<Longrightarrow> ?thesis"
  proof (cases "find (\<lambda>k. retry_unique env k \<noteq> []) [1..<6]")
    case None
    assume "snd (retry_loop env 1 [bp_today env]) = Inr out"
    with None show ?thesis by (simp add: retry_loop_spec)
  next
    case (Some k)
    assume a: "snd (retry_loop env 1 [bp_today env]) = Inr out"
    from Some have "k \<in> set [1..<6]" by (auto simp: find_Some_iff)
    then have "k \<in> {1..5}" by auto
    with a Some show ?thesis by (auto simp: retry_loop_spec)
  qed
  from assms consider "out = []"
    | "out = [\<lparr>date = bp_today env,
               rooms = first_by_type {} (main_rooms (generic_eval env) (hotel_page env))\<rparr>]"
    | "snd (retry_loop env 1 [bp_today env]) = Inr out"
    unfolding scrapeBookingPrices_def Let_def
    by (auto split: if_splits selection_outcome.splits)
  then show ?thesis using r by cases blast+
qed

lemma retry_unique_candidates:
  "\<exists>rs. retry_unique env k = first_by_type {} rs"
  by (cases "retry env k") (auto simp: retry_unique_def intro: exI [of _ "[]"])

text \<open>Without the hotel page there is no retry: the function returns at once.\<close>

lemma early_return_search:
  "launch env \<Longrightarrow> \<not> goto_networkidle env \<Longrightarrow> \<not> goto_domcontent env \<Longrightarrow>
   scrapeBookingPrices env = ([bp_today env], Inr [])"
  by (simp add: scrapeBookingPrices_def)

lemma early_return_selection:
  "launch env \<Longrightarrow> goto_networkidle env \<or> goto_domcontent env \<Longrightarrow>
   results_selector env \<or> load_state env \<Longrightarrow> screenshot env \<Longrightarrow>
   selection env \<noteq> HotelPage \<Longrightarrow>
   scrapeBookingPrices env = ([bp_today env], Inr [])"
  by (cases "selection env") (auto simp: scrapeBookingPrices_def Let_def)

lemma not_reached_no_shift:
  "\<not> reaches_extraction env \<Longrightarrow>
   length (fst (scrapeBookingPrices env)) \<le> 1
   \<and> (snd (scrapeBookingPrices env) = Inr [] \<or> snd (scrapeBookingPrices env) = Inl Thrown)"
  by (cases "selection env") (auto simp: scrapeBookingPrices_def reaches_extraction_def Let_def)
section \<open>Properties of the event scraper\<close>






































section \<open>Properties of the Ticketmaster pagination\<close>

lemma loop_stop:
  assumes "getEvents prov (length sent) q = Inl e
    \<or> (\<exists>events. getEvents prov (length sent) q = Inr events
          \<and> (length events < pageSize \<or> 50 \<le> page))"
  shows "fst (getAllEvents_loop prov q page all sent) = sent @ [q]"
  using assms
  by (subst getAllEvents_loop.simps) (auto simp: Let_def pageSize_def)

lemma loop_step:
  assumes "getEvents prov (length sent) q = Inr events" "pageSize \<le> length events" "page < 50"
  shows "getAllEvents_loop prov q page all sent
    = getAllEvents_loop prov q (page + 1) (all @ events) (sent @ [q])"
  using assms
  by (subst getAllEvents_loop.simps) (auto simp: Let_def pageSize_def)

lemma loop_cases:
  obtains (stop) "fst (getAllEvents_loop prov q page all sent) = sent @ [q]"
      "getEvents prov (length sent) q = Inl Thrown
        \<or> (\<exists>events. getEvents prov (length sent) q = Inr events \<and> length events < pageSize)
        \<or> 50 \<le> page"
  | (step) events where "getEvents prov (length sent) q = Inr events" "pageSize \<le> length events"
      "page < 50"
      "getAllEvents_loop prov q page all sent
        = getAllEvents_loop prov q (page + 1) (all @ events) (sent @ [q])"
      "events \<noteq> []"
proof (cases "getEvents prov (length sent) q")
  case (Inl e)
  then show ?thesis using stop loop_stop [of prov sent q e page all] by (cases e) auto
next
  case (Inr events)
  show ?thesis
  proof (cases "length events < pageSize \<or> 50 \<le> page")
    case True
    then show ?thesis using stop Inr loop_stop [of prov sent q Thrown page all] by auto
  next
    case False
    then have "events \<noteq> []" by (auto simp: pageSize_def)
    then show ?thesis using False step [of events] Inr loop_step [of prov sent q events page all]
      by (auto simp: pageSize_def)
  qed
qed

lemma loop_sent:
  "\<exists>k. fst (getAllEvents_loop prov q page all sent) = sent @ replicate (Suc k) q"
proof (induction prov q page all sent rule: getAllEvents_loop.induct)
  case (1 prov q page allEvents sent)
  show ?case
  proof (cases rule: loop_cases [where prov=prov and q=q and page=page and all=allEvents and sent=sent])
    case stop
    then have "fst (getAllEvents_loop prov q page allEvents sent) = sent @ replicate (Suc 0) q"
      by simp
    then show ?thesis by blast
  next
    case (step events)
    then obtain k where "fst (getAllEvents_loop prov q (page + 1) (allEvents @ events) (sent @ [q]))
          = (sent @ [q]) @ replicate (Suc k) q"
      using "1.IH" [of "sent @ [q]" events "allEvents @ events" "page + 1"]
      by (auto simp: pageSize_def)
    then have "fst (getAllEvents_loop prov q page allEvents sent) = sent @ replicate (Suc (Suc k)) q"
      using step(4) by simp
    then show ?thesis by blast
  qed
qed

lemma loop_bound:
  "page \<le> 50 \<Longrightarrow>
   length (fst (getAllEvents_loop prov q page all sent)) + page \<le> length sent + 51"
proof (induction prov q page all sent rule: getAllEvents_loop.induct)
  case (1 prov q page allEvents sent)
  show ?case
  proof (cases rule: loop_cases [where prov=prov and q=q and page=page and all=allEvents and sent=sent])
    case stop
    then show ?thesis using "1.prems" by simp
  next
    case (step events)
    then show ?thesis
      using "1.IH" [of "sent @ [q]" events "allEvents @ events" "page + 1"]
      by (auto simp: pageSize_def)
  qed
qed

text \<open>Every iteration but the last one received a full page.\<close>

lemma loop_continue:
  "length sent \<le> i \<Longrightarrow> Suc i < length (fst (getAllEvents_loop prov q page all sent)) \<Longrightarrow>
   \<exists>evs. getEvents prov i q = Inr evs \<and> pageSize \<le> length evs"
proof (induction prov q page all sent rule: getAllEvents_loop.induct)
  case (1 prov q page allEvents sent)
  show ?case
  proof (cases rule: loop_cases [where prov=prov and q=q and page=page and all=allEvents and sent=sent])
    case stop
    then show ?thesis using "1.prems" by simp
  next
    case (step events)
    show ?thesis
    proof (cases "i = length sent")
      case True
      then show ?thesis using step by simp
    next
      case False
      with "1.prems" have "length (sent @ [q]) \<le> i" by simp
      moreover have "Suc i < length (fst (getAllEvents_loop prov q (page + 1) (allEvents @ events) (sent @ [q])))"
        using "1.prems"(2) step(4) by simp
      ultimately show ?thesis
        using step "1.IH" [of "sent @ [q]" events "allEvents @ events" "page + 1"]
        by (auto simp: pageSize_def)
    qed
  qed
qed

text \<open>Why the loop stopped.\<close>

lemma loop_exit:
  "page \<le> 50 \<Longrightarrow> n = length (fst (getAllEvents_loop prov q page all sent)) \<Longrightarrow>
   n + page = length sent + 51
   \<or> getEvents prov (n - 1) q = Inl Thrown
   \<or> (\<exists>evs. getEvents prov (n - 1) q = Inr evs \<and> length evs < pageSize)"
proof (induction prov q page all sent arbitrary: n rule: getAllEvents_loop.induct)
  case (1 prov q page allEvents sent)
  show ?case
  proof (cases rule: loop_cases [where prov=prov and q=q and page=page and all=allEvents and sent=sent])
    case stop
    then show ?thesis using "1.prems" by auto
  next
    case (step events)
    then show ?thesis
      using "1.IH" [of "sent @ [q]" events "allEvents @ events" "page + 1" n] "1.prems"
      by (auto simp: pageSize_def)
  qed
qed

text \<open>
  C10.  Whatever the provider answers, \<open>getAllEvents\<close> returns after \<open>n\<close> iterations
  of its loop with \<open>1 \<le> n \<le> 51\<close> (so at most 52).  Every iteration sends the same
  argument object, in which no page number occurs.  Every iteration before the last
  received a full page of at least 200 events; the last one threw, or received fewer than
  200 events (possibly zero), or was the 51st, after which the safety counter exceeds 50.
\<close>

theorem getAllEvents_bounded: "let (sent, res) = getAllEvents prov q; n = length sent; q' = q\<lparr>q_limit := pageSize\<rparr> in
     1 \<le> n \<and> n \<le> 52 \<and> n \<le> 51 \<and> sent = replicate n q'
   \<and> (\<forall>i. Suc i < n \<longrightarrow> (\<exists>evs. getEvents prov i q' = Inr evs \<and> pageSize \<le> length evs))
   \<and> (n = 51 \<or> getEvents prov (n - 1) q' = Inl Thrown
        \<or> (\<exists>evs. getEvents prov (n - 1) q' = Inr evs \<and> length evs < pageSize))"
proof -
  define q' where "q' = q\<lparr>q_limit := pageSize\<rparr>"
  define r where "r = getAllEvents_loop prov q' 0 [] []"
  obtain k where k: "fst r = replicate (Suc k) q'"
    using loop_sent [of prov q' 0 "[]" "[]"] by (auto simp: r_def)
  have b: "length (fst r) \<le> 51"
    using loop_bound [of 0 prov q' "[]" "[]"] by (simp add: r_def)
  have c: "\<forall>i. Suc i < length (fst r) \<longrightarrow> (\<exists>evs. getEvents prov i q' = Inr evs \<and> pageSize \<le> length evs)"
    using loop_continue [of "[]" _ prov q' 0 "[]"] by (simp add: r_def)
  have d: "length (fst r) = 51 \<or> getEvents prov (length (fst r) - 1) q' = Inl Thrown
        \<or> (\<exists>evs. getEvents prov (length (fst r) - 1) q' = Inr evs \<and> length evs < pageSize)"
    using loop_exit [of 0 "length (fst r)" prov q' "[]" "[]"] by (simp add: r_def)
  have e: "fst r = replicate (length (fst r)) q'" using k by simp
  show ?thesis
    unfolding getAllEvents_def q'_def [symmetric] r_def [symmetric]
    using k b c d e by (simp add: case_prod_beta Let_def)
qed

theorem getAllEvents_bounded_witness:
  "length (fst (getAllEvents
      (\<lambda>n q. FetchData (Some (replicate 200
         \<lparr>ev_name = lit ''Show'', ev_url = [], ev_date = lit ''2026-01-01'', ev_time = [],
          ev_venue = [], ev_genre = [], ev_price_range = lit ''N/A''\<rparr>)))
      \<lparr>q_city = None, q_daysAhead = 90, q_limit = 15, q_latitude = Some 32.525,
       q_longitude = Some (- 117.0233), q_radius = 10, q_countryCode = None\<rparr>)) = 51"
  (is "length (fst (getAllEvents ?prov ?q)) = 51")
proof -
  define n where "n = length (fst (getAllEvents ?prov ?q))"
  have ge: "getEvents ?prov i q = Inr (replicate 200
         \<lparr>ev_name = lit ''Show'', ev_url = [], ev_date = lit ''2026-01-01'', ev_time = [],
          ev_venue = [], ev_genre = [], ev_price_range = lit ''N/A''\<rparr>)" for i q
    by (simp add: getEvents_def)
  have "n = 51 \<or> getEvents ?prov (n - 1) (?q\<lparr>q_limit := pageSize\<rparr>) = Inl Thrown
      \<or> (\<exists>evs. getEvents ?prov (n - 1) (?q\<lparr>q_limit := pageSize\<rparr>) = Inr evs
            \<and> length evs < pageSize)"
    using getAllEvents_bounded [of ?prov ?q] unfolding n_def
    by (simp only: case_prod_beta Let_def)
  then have "n = 51" unfolding ge by (simp add: pageSize_def)
  then show ?thesis by (simp add: n_def)
qed

section \<open>The claims about the multi-day scheduler\<close>

text \<open>
  C9.  Let the window have between 1 and 90 days, let the set-up reach the hotel page and
  let every block get its page.  Then, under every schedule and whatever happens on the
  single days, \<open>scrapeMultipleDates\<close> resolves to an output that has exactly one entry for
  each day offset \<open>0, ..., days - 1\<close>; the entries of each block's range stand in the
  output in ascending order of the offset (a block visits its days one after the other);
  each entry is the one \<open>processRange\<close> computes for its day, and for a day whose
  navigation or page script throws that is the entry with the day's date and no rooms.
\<close>

theorem multi_day_one_entry_per_day:
  assumes "1 \<le> days" "days \<le> 90" "md_setup env = HotelOpen" "\<forall>a. block_page env a"
  shows "\<exists>out. scrapeMultipleDates env sched days concurrency = Inr out
    \<and> mset (day_offsets env out) = mset [0..days - 1]
    \<and> (\<forall>(a, b) \<in> set (dateRanges days).
          filter (\<lambda>k. a \<le> k \<and> k \<le> b) (day_offsets env out) = [a..b])
    \<and> (\<forall>e \<in> set out. e = processDay env (date e - md_today env))
    \<and> (\<forall>k. (\<forall>pg. visit env k \<noteq> Loaded pg)
          \<longrightarrow> processDay env k = \<lparr>date = md_today env + k, rooms = []\<rparr>)"
proof -
  define final where "final = last (run_trace env sched (start_units (dateRanges days)))"
  note run = scrapeMultipleDates_run [OF assms(1,2,4), of sched, folded final_def]
  have "\<not> list_ex (\<lambda>(a, b, st). st = Rejected) (units final)"
    using run(1) by (auto simp: list_ex_iff)
  then have "scrapeMultipleDates env sched days concurrency = Inr (results final)"
    using assms(3)
    by (simp add: scrapeMultipleDates_def scrapeMultipleDates_states_def final_def Let_def)
  then show ?thesis using run(2,3,4) processDay_failed by blast
qed

theorem multi_day_one_entry_per_day_witness:
  "scrapeMultipleDates example_env [] 3 5
     = Inr [\<lparr>date = 20000, rooms =
              [\<lparr>room_type = lit ''Suite'', price = lit ''MXN 1,200'', source = None\<rparr>,
               \<lparr>room_type = lit ''Twin Room'', price = lit ''$ 90.50'', source = None\<rparr>]\<rparr>,
            \<lparr>date = 20001, rooms = []\<rparr>,
            \<lparr>date = 20002, rooms = []\<rparr>]
   \<and> (\<exists>out. scrapeMultipleDates example_env [] 3 5 = Inr out
         \<and> mset (day_offsets example_env out) = mset [0..2])"
proof -
  have h: "(1::int) \<le> 3" "(3::int) \<le> 90" "md_setup example_env = HotelOpen"
    "\<forall>a. block_page example_env a"
    by (simp_all add: example_env_def)
  have "scrapeMultipleDates example_env [] 3 5
     = Inr [\<lparr>date = 20000, rooms =
              [\<lparr>room_type = lit ''Suite'', price = lit ''MXN 1,200'', source = None\<rparr>,
               \<lparr>room_type = lit ''Twin Room'', price = lit ''$ 90.50'', source = None\<rparr>]\<rparr>,
            \<lparr>date = 20001, rooms = []\<rparr>,
            \<lparr>date = 20002, rooms = []\<rparr>]"
    by code_simp
  moreover from multi_day_one_entry_per_day [OF h, of "[]" 5]
  have "\<exists>out. scrapeMultipleDates example_env [] 3 5 = Inr out
         \<and> mset (day_offsets example_env out) = mset [0..2]"
    by auto
  ultimately show ?thesis by blast
qed

text \<open>
  C2.  With \<open>days = 90\<close> and \<open>concurrency = 1\<close> the bound \<open>CONCURRENT_TASKS\<close> is 1, and
  under the schedule in which the three pages open before the first day is visited three
  units hold a page at the same time: the bound is computed and never enforced.
\<close>

theorem concurrency_bound_not_enforced:
  "max_active (scrapeMultipleDates_states example_env [0, 1, 2] 90 1) = 3
   \<and> CONCURRENT_TASKS 1 = 1"
  by code_simp

text \<open>
  C3.  With \<open>days = 32\<close> there are two blocks, \<open>(0, 30)\<close> and \<open>(31, 31)\<close>.  When the first
  block runs to its end first the output lists the days in ascending order; when the
  second block is resumed first, its day 31 is the first entry of the output.  Two runs
  that differ only in the interleaving of the blocks give outputs in different orders:
  each unit pushes onto the shared \<open>results\<close> as it goes.
\<close>

theorem output_order_follows_completion:
  "map_sum id (map date) (scrapeMultipleDates example_env [] 32 5) = Inr [20000..20031]
   \<and> map_sum id (map date) (scrapeMultipleDates example_env [1, 1, 1] 32 5)
       = Inr (20031 # [20000..20030])"
  by code_simp

section \<open>The claims about the price records\<close>

text \<open>
  C5.  The final pass is the specification's: of the candidate records with a label, it
  retains exactly those that no earlier candidate shares the trimmed label with, in their
  order.  So the records kept have pairwise different labels (even after trimming), each
  record kept is the first candidate with its trimmed label, and the first candidate of
  every label is kept; candidates without a label are dropped.  Every output of
  \<open>scrapeMultipleDates\<close> has pairwise different dates and every output of
  \<open>scrapeBookingPrices\<close> has at most one entry; the rooms of each entry are the final pass
  of what was extracted for its date.  So no two records of an output share the natural
  key (date, room type).
\<close>

theorem natural_keys_unique:
  "distinct (map (\<lambda>r. trim (room_type r)) (first_by_type {} rs))
   \<and> (\<forall>r \<in> set (first_by_type {} rs).
         find (\<lambda>x. trim (room_type x) = trim (room_type r)) rs = Some r)
   \<and> (\<forall>x \<in> set rs. trim (room_type x) \<noteq> [] \<longrightarrow>
         (\<exists>r \<in> set (first_by_type {} rs).
            find (\<lambda>y. trim (room_type y) = trim (room_type x)) rs = Some r))
   \<and> (\<forall>r \<in> set (first_by_type {} rs). trim (room_type r) \<noteq> [])
   \<and> subseq (first_by_type {} rs) rs
   \<and> first_by_type {} rs = keep_earliest rs
   \<and> (scrapeMultipleDates menv sched days concurrency = Inr out \<longrightarrow>
         distinct (natural_keys out)
         \<and> (\<forall>e \<in> set out.
               rooms e = first_by_type {} (day_candidates menv (date e - md_today menv))))
   \<and> (snd (scrapeBookingPrices env) = Inr out' \<longrightarrow>
         distinct (natural_keys out')
         \<and> (out' = []
            \<or> out' = [\<lparr>date = bp_today env,
                  rooms = first_by_type {} (main_rooms (generic_eval env) (hotel_page env))\<rparr>]
            \<or> (\<exists>k \<in> {1..5}. out' = [\<lparr>date = bp_today env + int k, rooms = retry_unique env k\<rparr>])))"
proof (intro conjI impI)
  show "distinct (map (\<lambda>r. trim (room_type r)) (first_by_type {} rs))"
    by (rule first_by_type_distinct)
  show "\<forall>r \<in> set (first_by_type {} rs).
         find (\<lambda>x. trim (room_type x) = trim (room_type r)) rs = Some r"
    using first_by_type_first by blast
  show "\<forall>x \<in> set rs. trim (room_type x) \<noteq> [] \<longrightarrow>
         (\<exists>r \<in> set (first_by_type {} rs).
            find (\<lambda>y. trim (room_type y) = trim (room_type x)) rs = Some r)"
    using first_of_key_kept by blast
  show "\<forall>r \<in> set (first_by_type {} rs). trim (room_type r) \<noteq> []"
    using first_by_type_labelled by blast
  show "subseq (first_by_type {} rs) rs" by (rule first_by_type_subseq)
  show "first_by_type {} rs = keep_earliest rs" by (rule first_by_type_keep_earliest)
next
  assume a: "scrapeMultipleDates menv sched days concurrency = Inr out"
  note m = scrapeMultipleDates_Inr [OF a]
  from m show rooms: "\<forall>e \<in> set out.
      rooms e = first_by_type {} (day_candidates menv (date e - md_today menv))"
    by (metis processDay_candidates day_entry.select_convs(2))
  then have "\<forall>e \<in> set out. distinct (map room_type (rooms e))"
    by (simp add: first_by_type_distinct_types)
  with m show "distinct (natural_keys out)" by (simp add: natural_keys_distinct)
next
  assume a: "snd (scrapeBookingPrices env) = Inr out'"
  note b = scrapeBookingPrices_Inr [OF a]
  then show "out' = []
      \<or> out' = [\<lparr>date = bp_today env,
            rooms = first_by_type {} (main_rooms (generic_eval env) (hotel_page env))\<rparr>]
      \<or> (\<exists>k \<in> {1..5}. out' = [\<lparr>date = bp_today env + int k, rooms = retry_unique env k\<rparr>])" .
  from b show "distinct (natural_keys out')"
  proof (elim disjE bexE)
    assume "out' = []"
    then show ?thesis by (simp add: natural_keys_def)
  next
    assume "out' = [\<lparr>date = bp_today env,
            rooms = first_by_type {} (main_rooms (generic_eval env) (hotel_page env))\<rparr>]"
    then show ?thesis
      by (simp add: natural_keys_distinct first_by_type_distinct_types)
  next
    fix k assume "out' = [\<lparr>date = bp_today env + int k, rooms = retry_unique env k\<rparr>]"
    moreover obtain rs where "retry_unique env k = first_by_type {} rs"
      using retry_unique_candidates by blast
    ultimately show ?thesis
      by (simp add: natural_keys_distinct first_by_type_distinct_types)
  qed
qed

theorem natural_keys_unique_witness:
  "first_by_type {}
       [\<lparr>room_type = lit ''Suite'', price = lit ''$ 1'', source = None\<rparr>,
        \<lparr>room_type = lit '' Suite '', price = lit ''$ 2'', source = None\<rparr>,
        \<lparr>room_type = lit ''  '', price = lit ''$ 3'', source = None\<rparr>,
        \<lparr>room_type = lit ''Twin'', price = lit ''$ 4'', source = None\<rparr>,
        \<lparr>room_type = lit ''Twin'', price = lit ''$ 5'', source = None\<rparr>]
     = [\<lparr>room_type = lit ''Suite'', price = lit ''$ 1'', source = None\<rparr>,
        \<lparr>room_type = lit ''Twin'', price = lit ''$ 4'', source = None\<rparr>]
   \<and> (\<exists>r \<in> set (first_by_type {}
                  [\<lparr>room_type = lit ''Suite'', price = lit ''$ 1'', source = None\<rparr>,
                   \<lparr>room_type = lit '' Suite '', price = lit ''$ 2'', source = None\<rparr>,
                   \<lparr>room_type = lit ''  '', price = lit ''$ 3'', source = None\<rparr>,
                   \<lparr>room_type = lit ''Twin'', price = lit ''$ 4'', source = None\<rparr>,
                   \<lparr>room_type = lit ''Twin'', price = lit ''$ 5'', source = None\<rparr>]).
         r = \<lparr>room_type = lit ''Twin'', price = lit ''$ 4'', source = None\<rparr>)
   \<and> distinct (natural_keys
        [\<lparr>date = 20000, rooms =
              [\<lparr>room_type = lit ''Suite'', price = lit ''MXN 1,200'', source = None\<rparr>,
               \<lparr>room_type = lit ''Twin Room'', price = lit ''$ 90.50'', source = None\<rparr>]\<rparr>,
         \<lparr>date = 20001, rooms = []\<rparr>,
         \<lparr>date = 20002, rooms = []\<rparr>])"
proof -
  let ?rs = "[\<lparr>room_type = lit ''Suite'', price = lit ''$ 1'', source = None\<rparr>,
        \<lparr>room_type = lit '' Suite '', price = lit ''$ 2'', source = None\<rparr>,
        \<lparr>room_type = lit ''  '', price = lit ''$ 3'', source = None\<rparr>,
        \<lparr>room_type = lit ''Twin'', price = lit ''$ 4'', source = None\<rparr>,
        \<lparr>room_type = lit ''Twin'', price = lit ''$ 5'', source = None\<rparr>]"
  let ?x = "\<lparr>room_type = lit ''Twin'', price = lit ''$ 5'', source = None\<rparr>"
  let ?out = "[\<lparr>date = 20000, rooms =
              [\<lparr>room_type = lit ''Suite'', price = lit ''MXN 1,200'', source = None\<rparr>,
               \<lparr>room_type = lit ''Twin Room'', price = lit ''$ 90.50'', source = None\<rparr>]\<rparr>,
         \<lparr>date = 20001, rooms = []\<rparr>,
         \<lparr>date = 20002, rooms = []\<rparr>]"
  note t = natural_keys_unique [of ?rs example_env "[]" 3 5 ?out example_bp "[]"]
  have e: "scrapeMultipleDates example_env [] 3 5 = Inr ?out" by code_simp
  have k: "keep_earliest ?rs
     = [\<lparr>room_type = lit ''Suite'', price = lit ''$ 1'', source = None\<rparr>,
        \<lparr>room_type = lit ''Twin'', price = lit ''$ 4'', source = None\<rparr>]"
    by code_simp
  have x: "?x \<in> set ?rs" by simp
  have n: "trim (room_type ?x) \<noteq> []" by code_simp
  have f: "find (\<lambda>y. trim (room_type y) = trim (room_type ?x)) ?rs
     = Some \<lparr>room_type = lit ''Twin'', price = lit ''$ 4'', source = None\<rparr>"
    by code_simp
  from t have 1: "first_by_type {} ?rs = keep_earliest ?rs" by (elim conjE)
  from t have "\<forall>x \<in> set ?rs. trim (room_type x) \<noteq> [] \<longrightarrow>
         (\<exists>r \<in> set (first_by_type {} ?rs).
            find (\<lambda>y. trim (room_type y) = trim (room_type x)) ?rs = Some r)"
    by (elim conjE)
  with x n have "\<exists>r \<in> set (first_by_type {} ?rs).
       find (\<lambda>y. trim (room_type y) = trim (room_type ?x)) ?rs = Some r"
    by blast
  then have 2: "\<exists>r \<in> set (first_by_type {} ?rs).
       r = \<lparr>room_type = lit ''Twin'', price = lit ''$ 4'', source = None\<rparr>"
    unfolding f by auto
  from t have "scrapeMultipleDates example_env [] 3 5 = Inr ?out \<longrightarrow> distinct (natural_keys ?out)"
    by (elim conjE) blast
  with e have 3: "distinct (natural_keys ?out)" by blast
  from 1 k have "first_by_type {} ?rs
     = [\<lparr>room_type = lit ''Suite'', price = lit ''$ 1'', source = None\<rparr>,
        \<lparr>room_type = lit ''Twin'', price = lit ''$ 4'', source = None\<rparr>]"
    by simp
  with 2 3 show ?thesis by blast
qed

section \<open>The claims about the extraction pipelines and the single-day scraper\<close>

lemma generic_main_source:
  "\<forall>r \<in> set acc. source r = Some Generic \<Longrightarrow>
   \<forall>r \<in> set (generic_main acc els). source r = Some Generic"
proof (induction els arbitrary: acc)
  case Nil
  then show ?case by simp
next
  case (Cons el els)
  have ext: "\<forall>r \<in> set (acc @ [\<lparr>room_type = n, price = m, source = Some Generic\<rparr>]).
      source r = Some Generic" for n m
    using Cons.prems by simp
  show ?case
    using Cons.IH [OF Cons.prems] Cons.IH [OF ext]
    by (simp add: Let_def split: option.split)
qed

lemma hprt_main_source: "\<forall>r \<in> set (hprt_main pg). source r = Some HprtTable"
  using table_scan_labels [of _ main_label row_price "Some HprtTable" "{}"]
  by (auto simp: hprt_main_def split: option.splits)

text \<open>
  C6.  In each of the three price page scripts and in the event page script the output is
  the output of the primary strategy (the \<open>hprt-table\<close> rows; the JSON-LD events) whenever
  that is non-empty, and the final pass over the rooms does not change it; otherwise it
  is the output of the fallback strategy alone (nothing, when the generic script of
  \<open>scrapeBookingPrices\<close> throws).  Rooms carry the tag of the strategy that found them.
  Hence \<open>scrapeBookingPrices\<close> returns exactly the table rows of the hotel page when there
  are any, and so does \<open>processRange\<close> for a day.
\<close>

theorem primary_strategy_wins:
  "(hprt_main pg \<noteq> [] \<longrightarrow> first_by_type {} (main_rooms g pg) = hprt_main pg)
   \<and> (hprt_main pg = [] \<longrightarrow> main_rooms g pg = (if g then generic_main [] (candidates pg) else []))
   \<and> (\<forall>r \<in> set (hprt_main pg). source r = Some HprtTable)
   \<and> (\<forall>r \<in> set (generic_main [] (candidates pg)). source r = Some Generic)
   \<and> (hprt_day pg \<noteq> [] \<longrightarrow> first_by_type {} (day_rooms pg) = hprt_day pg)
   \<and> (hprt_day pg = [] \<longrightarrow> day_rooms pg = generic_scan {} (candidates pg))
   \<and> (hprt_retry pg \<noteq> [] \<longrightarrow> first_by_type {} (retry_rooms pg) = hprt_retry pg)
   \<and> (hprt_retry pg = [] \<longrightarrow> retry_rooms pg = generic_scan {} (candidates pg))
   \<and> (jsonld_events m la lo radiusKm doc \<noteq> [] \<longrightarrow>
         extract_events m la lo radiusKm doc = jsonld_events m la lo radiusKm doc)
   \<and> (jsonld_events m la lo radiusKm doc = [] \<longrightarrow>
         extract_events m la lo radiusKm doc = anchor_events m la lo radiusKm doc)
   \<and> (reaches_extraction env \<and> hprt_main (hotel_page env) \<noteq> [] \<longrightarrow>
         scrapeBookingPrices env
           = ([bp_today env], Inr [\<lparr>date = bp_today env, rooms = hprt_main (hotel_page env)\<rparr>]))
   \<and> (visit menv k = Loaded pg \<and> hprt_day pg \<noteq> [] \<longrightarrow>
         processDay menv k = \<lparr>date = md_today menv + k, rooms = hprt_day pg\<rparr>)"
proof (intro conjI impI)
  show "\<forall>r \<in> set (hprt_main pg). source r = Some HprtTable" by (rule hprt_main_source)
  show "\<forall>r \<in> set (generic_main [] (candidates pg)). source r = Some Generic"
    by (rule generic_main_source) simp
next
  assume "hprt_main pg \<noteq> []"
  then show "first_by_type {} (main_rooms g pg) = hprt_main pg"
    by (simp add: main_rooms_def hprt_main_fixed)
next
  assume "hprt_main pg = []"
  then show "main_rooms g pg = (if g then generic_main [] (candidates pg) else [])"
    by (simp add: main_rooms_def)
next
  assume "hprt_day pg \<noteq> []"
  then show "first_by_type {} (day_rooms pg) = hprt_day pg"
    by (simp add: day_rooms_def hprt_day_fixed)
next
  assume "hprt_day pg = []"
  then show "day_rooms pg = generic_scan {} (candidates pg)" by (simp add: day_rooms_def)
next
  assume "hprt_retry pg \<noteq> []"
  then show "first_by_type {} (retry_rooms pg) = hprt_retry pg"
    by (simp add: retry_rooms_def hprt_retry_fixed)
next
  assume "hprt_retry pg = []"
  then show "retry_rooms pg = generic_scan {} (candidates pg)" by (simp add: retry_rooms_def)
next
  assume "jsonld_events m la lo radiusKm doc \<noteq> []"
  then show "extract_events m la lo radiusKm doc = jsonld_events m la lo radiusKm doc"
    by (simp add: extract_events_def)
next
  assume "jsonld_events m la lo radiusKm doc = []"
  then show "extract_events m la lo radiusKm doc = anchor_events m la lo radiusKm doc"
    by (simp add: extract_events_def)
next
  assume a: "reaches_extraction env \<and> hprt_main (hotel_page env) \<noteq> []"
  then have "first_by_type {} (main_rooms (generic_eval env) (hotel_page env)) = hprt_main (hotel_page env)"
    by (simp add: main_rooms_def hprt_main_fixed)
  with a show "scrapeBookingPrices env
      = ([bp_today env], Inr [\<lparr>date = bp_today env, rooms = hprt_main (hotel_page env)\<rparr>])"
    by (simp add: scrapeBookingPrices_reached)
next
  assume a: "visit menv k = Loaded pg \<and> hprt_day pg \<noteq> []"
  then have "first_by_type {} (day_rooms pg) = hprt_day pg"
    by (simp add: day_rooms_def hprt_day_fixed)
  with a show "processDay menv k = \<lparr>date = md_today menv + k, rooms = hprt_day pg\<rparr>"
    by (simp add: processDay_def)
qed

theorem primary_strategy_wins_witness:
  "hprt_main example_page
     = [\<lparr>room_type = lit ''Suite'', price = lit ''MXN 1,200'', source = Some HprtTable\<rparr>,
        \<lparr>room_type = lit ''Twin Room'', price = lit ''$ 90.50'', source = Some HprtTable\<rparr>]
   \<and> scrapeBookingPrices (example_bp\<lparr>hotel_page := example_page\<rparr>)
     = ([20000], Inr [\<lparr>date = 20000, rooms =
          [\<lparr>room_type = lit ''Suite'', price = lit ''MXN 1,200'', source = Some HprtTable\<rparr>,
           \<lparr>room_type = lit ''Twin Room'', price = lit ''$ 90.50'', source = Some HprtTable\<rparr>]\<rparr>])"
proof -
  let ?env = "example_bp\<lparr>hotel_page := example_page\<rparr>"
  have t: "hprt_main example_page
     = [\<lparr>room_type = lit ''Suite'', price = lit ''MXN 1,200'', source = Some HprtTable\<rparr>,
        \<lparr>room_type = lit ''Twin Room'', price = lit ''$ 90.50'', source = Some HprtTable\<rparr>]"
    by code_simp
  have r: "reaches_extraction ?env" by (simp add: reaches_extraction_def example_bp_def)
  have p: "hotel_page ?env = example_page" "bp_today ?env = 20000" by (simp_all add: example_bp_def)
  from primary_strategy_wins [of example_page True exact_arithmetic 0 0 0
      "\<lparr>jsonld = LdThrows, anchors = []\<rparr>"
      ?env example_env 0]
  have "reaches_extraction ?env \<and> hprt_main (hotel_page ?env) \<noteq> [] \<longrightarrow>
         scrapeBookingPrices ?env
           = ([bp_today ?env], Inr [\<lparr>date = bp_today ?env, rooms = hprt_main (hotel_page ?env)\<rparr>])"
    by blast
  with r t p show ?thesis by simp
qed

text \<open>
  C7, as the program has it.  \<open>scrapeBookingPrices\<close> attempts a prefix of the six dates
  today, today + 1, ..., today + 5, so at most six, all different.  When the run reaches
  the hotel page and its first page script succeeds, and today yields no record, it
  tries the next days one at a time and returns the result of the first of the five that
  yields a record, with the dates attempted up to that day; when none does, it has
  attempted all six dates and returns \<open>[]\<close>.  When the run does not get that far it shifts
  no date: if the search results fail to load, no result link is found or opening it
  throws, it returns \<open>[]\<close> having attempted today only.
\<close>

theorem retry_recovery:
  "(\<exists>j \<le> 6. fst (scrapeBookingPrices env) = take j (bp_today env # retry_dates env 1 6))
   \<and> length (fst (scrapeBookingPrices env)) \<le> 6
   \<and> distinct (fst (scrapeBookingPrices env))
   \<and> (reaches_extraction env
        \<and> first_by_type {} (main_rooms (generic_eval env) (hotel_page env)) = [] \<longrightarrow>
       scrapeBookingPrices env =
         (case find (\<lambda>k. retry_unique env k \<noteq> []) [1..<6] of
            None \<Rightarrow> (bp_today env # retry_dates env 1 6, Inr [])
          | Some k \<Rightarrow>
              (bp_today env # retry_dates env 1 (Suc k),
               Inr [\<lparr>date = bp_today env + int k, rooms = retry_unique env k\<rparr>])))
   \<and> (reaches_extraction env
        \<and> first_by_type {} (main_rooms (generic_eval env) (hotel_page env)) = []
        \<and> (\<forall>k. retry_unique env k = []) \<longrightarrow>
       scrapeBookingPrices env =
         ([bp_today env, bp_today env + 1, bp_today env + 2, bp_today env + 3,
           bp_today env + 4, bp_today env + 5], Inr []))
   \<and> (launch env \<and> \<not> goto_networkidle env \<and> \<not> goto_domcontent env \<longrightarrow>
       scrapeBookingPrices env = ([bp_today env], Inr []))
   \<and> (launch env \<and> (goto_networkidle env \<or> goto_domcontent env)
        \<and> (results_selector env \<or> load_state env) \<and> screenshot env
        \<and> selection env \<noteq> HotelPage \<longrightarrow>
       scrapeBookingPrices env = ([bp_today env], Inr []))
   \<and> (\<not> reaches_extraction env \<longrightarrow>
       length (fst (scrapeBookingPrices env)) \<le> 1
       \<and> (snd (scrapeBookingPrices env) = Inr [] \<or> snd (scrapeBookingPrices env) = Inl Thrown))"
proof (intro conjI impI)
  obtain j where j: "j \<le> 6"
    "fst (scrapeBookingPrices env) = take j (bp_today env # retry_dates env 1 6)"
    using scrapeBookingPrices_attempts by blast
  then show "\<exists>j \<le> 6. fst (scrapeBookingPrices env) = take j (bp_today env # retry_dates env 1 6)"
    by blast
  show "length (fst (scrapeBookingPrices env)) \<le> 6" using j by simp
  have "distinct (bp_today env # retry_dates env 1 6)"
    by (auto simp: retry_dates_def distinct_map inj_on_def)
  then show "distinct (fst (scrapeBookingPrices env))"
    unfolding j(2) by (rule distinct_take)
next
  assume a: "reaches_extraction env
      \<and> first_by_type {} (main_rooms (generic_eval env) (hotel_page env)) = []"
  then show "scrapeBookingPrices env =
         (case find (\<lambda>k. retry_unique env k \<noteq> []) [1..<6] of
            None \<Rightarrow> (bp_today env # retry_dates env 1 6, Inr [])
          | Some k \<Rightarrow>
              (bp_today env # retry_dates env 1 (Suc k),
               Inr [\<lparr>date = bp_today env + int k, rooms = retry_unique env k\<rparr>]))"
    by (simp add: scrapeBookingPrices_reached retry_loop_spec split: option.split)
next
  assume a: "reaches_extraction env
      \<and> first_by_type {} (main_rooms (generic_eval env) (hotel_page env)) = []
      \<and> (\<forall>k. retry_unique env k = [])"
  then have "find (\<lambda>k. retry_unique env k \<noteq> []) [1..<6] = None"
    by (simp add: find_None_iff)
  moreover have "[1..<6] = [1, 2, 3, 4, 5::nat]" by (simp add: upt_conv_Cons)
  ultimately show "scrapeBookingPrices env =
         ([bp_today env, bp_today env + 1, bp_today env + 2, bp_today env + 3,
           bp_today env + 4, bp_today env + 5], Inr [])"
    using a by (simp add: scrapeBookingPrices_reached retry_loop_spec retry_dates_def)
next
  assume "launch env \<and> \<not> goto_networkidle env \<and> \<not> goto_domcontent env"
  then show "scrapeBookingPrices env = ([bp_today env], Inr [])"
    by (simp add: early_return_search)
next
  assume "launch env \<and> (goto_networkidle env \<or> goto_domcontent env)
      \<and> (results_selector env \<or> load_state env) \<and> screenshot env
      \<and> selection env \<noteq> HotelPage"
  then show "scrapeBookingPrices env = ([bp_today env], Inr [])"
    by (simp add: early_return_selection)
next
  assume a: "\<not> reaches_extraction env"
  from not_reached_no_shift [OF a] show "length (fst (scrapeBookingPrices env)) \<le> 1" by simp
  from not_reached_no_shift [OF a]
  show "snd (scrapeBookingPrices env) = Inr [] \<or> snd (scrapeBookingPrices env) = Inl Thrown"
    by simp
qed

text \<open>
  C7 as stated fails when the run does not reach the hotel page: with no result link
  found, today yields no record and the third day ahead would yield two, yet the function
  returns \<open>[]\<close> having attempted today only.
\<close>

theorem no_shift_without_hotel_page:
  "scrapeBookingPrices (example_bp\<lparr>selection := NoCandidate\<rparr>) = ([20000], Inr [])
   \<and> retry_unique (example_bp\<lparr>selection := NoCandidate\<rparr>) 3
       = [\<lparr>room_type = lit ''Suite'', price = lit ''MXN 1,200'', source = None\<rparr>,
          \<lparr>room_type = lit ''Twin Room'', price = lit ''$ 90.50'', source = None\<rparr>]"
  by code_simp

theorem retry_recovery_witness:
  "scrapeBookingPrices example_bp
     = ([20000, 20001, 20002, 20003],
        Inr [\<lparr>date = 20003, rooms =
          [\<lparr>room_type = lit ''Suite'', price = lit ''MXN 1,200'', source = None\<rparr>,
           \<lparr>room_type = lit ''Twin Room'', price = lit ''$ 90.50'', source = None\<rparr>]\<rparr>])
   \<and> scrapeBookingPrices (example_bp\<lparr>retry := (\<lambda>add. EvalThrows)\<rparr>)
     = ([20000, 20001, 20002, 20003, 20004, 20005], Inr [])
   \<and> scrapeBookingPrices (example_bp\<lparr>selection := SelectionThrows\<rparr>) = ([20000], Inr [])"
proof -
  let ?env = "example_bp\<lparr>retry := (\<lambda>add. EvalThrows)\<rparr>"
  let ?env' = "example_bp\<lparr>selection := SelectionThrows\<rparr>"
  have r0: "reaches_extraction example_bp" by (simp add: reaches_extraction_def example_bp_def)
  have i0: "first_by_type {} (main_rooms (generic_eval example_bp) (hotel_page example_bp)) = []"
    by code_simp
  have f0: "find (\<lambda>k. retry_unique example_bp k \<noteq> []) [1..<6] = Some 3" by code_simp
  have u0: "retry_unique example_bp 3
     = [\<lparr>room_type = lit ''Suite'', price = lit ''MXN 1,200'', source = None\<rparr>,
        \<lparr>room_type = lit ''Twin Room'', price = lit ''$ 90.50'', source = None\<rparr>]"
    by code_simp
  have d0: "bp_today example_bp # retry_dates example_bp 1 (Suc 3) = [20000, 20001, 20002, 20003]"
    by (simp add: retry_dates_def example_bp_def upt_conv_Cons)
  have t0: "bp_today example_bp + int 3 = 20003" by (simp add: example_bp_def)
  from retry_recovery [of example_bp] r0 i0
  have "scrapeBookingPrices example_bp =
         (case find (\<lambda>k. retry_unique example_bp k \<noteq> []) [1..<6] of
            None \<Rightarrow> (bp_today example_bp # retry_dates example_bp 1 6, Inr [])
          | Some k \<Rightarrow>
              (bp_today example_bp # retry_dates example_bp 1 (Suc k),
               Inr [\<lparr>date = bp_today example_bp + int k, rooms = retry_unique example_bp k\<rparr>]))"
    by blast
  then have 1: "scrapeBookingPrices example_bp
     = ([20000, 20001, 20002, 20003],
        Inr [\<lparr>date = 20003, rooms =
          [\<lparr>room_type = lit ''Suite'', price = lit ''MXN 1,200'', source = None\<rparr>,
           \<lparr>room_type = lit ''Twin Room'', price = lit ''$ 90.50'', source = None\<rparr>]\<rparr>])"
    unfolding f0 option.case d0 t0 u0 .
  have r: "reaches_extraction ?env" by (simp add: reaches_extraction_def example_bp_def)
  have i: "first_by_type {} (main_rooms (generic_eval ?env) (hotel_page ?env)) = []"
    by code_simp
  have z: "\<forall>k. retry_unique ?env k = []" by (simp add: retry_unique_def)
  have t: "bp_today ?env = 20000" by (simp add: example_bp_def)
  from retry_recovery [of ?env] r i z
  have 2: "scrapeBookingPrices ?env =
         ([bp_today ?env, bp_today ?env + 1, bp_today ?env + 2, bp_today ?env + 3,
           bp_today ?env + 4, bp_today ?env + 5], Inr [])"
    by blast
  have s: "launch ?env' \<and> (goto_networkidle ?env' \<or> goto_domcontent ?env')
        \<and> (results_selector ?env' \<or> load_state ?env') \<and> screenshot ?env'
        \<and> selection ?env' \<noteq> HotelPage"
    by (simp add: example_bp_def)
  have t': "bp_today ?env' = 20000" by (simp add: example_bp_def)
  from retry_recovery [of ?env'] s
  have 3: "scrapeBookingPrices ?env' = ([bp_today ?env'], Inr [])" by blast
  from 1 2 3 t t' show ?thesis by simp
qed

section \<open>The claims about the event scraper and about failures\<close>








end
